theory Spec2Isabelle
  imports Complex_Main
begin

section \<open>ELD daily logs: a model of \<open>processTripData\<close> (ELDLogs.js)\<close>

text \<open>
  The component \<open>src/frontend/src/components/ELDLogs.js\<close> turns the ordered list of planned
  stops of a trip and a start date into one duty-status log per calendar day. This theory
  embeds that computation and the \<open>date-fns\<close> calls it is written with.

  Conventions of the embedding.
  \<^item> A JavaScript number is a \<^typ>\<open>real\<close>: arithmetic is exact, the rounding of IEEE doubles
    is not represented. \<open>NaN\<close> is represented where the program can produce it from reals:
    as the time value of an Invalid Date and as the result of \<open>differenceInHours\<close> on one.
  \<^item> A \<open>Date\<close> is its time value: \<open>Some t\<close>, with \<open>t\<close> the milliseconds since the epoch (UTC),
    or \<open>None\<close> for an Invalid Date. \<open>TimeClip\<close> makes every time value beyond
    \<open>8.64e15\<close> milliseconds invalid, as the \<open>Date\<close> constructor does.
  \<^item> The local time zone of the runtime is a parameter \<open>z\<close> of type \<open>zone\<close>: the calendar days
    in order, each with the instant at which it starts, and the instant that \<open>setDate\<close> finds
    a number of days after another. Its days may last 23, 24 or 25 hours, or any other
    time, and a day need not start at 00:00.
  \<^item> \<open>format\<close> throws a \<open>RangeError\<close> on an Invalid Date; functions that can throw return
    a sum, \<open>Inl\<close> the exception.
  \<^item> The object \<open>dailyData\<close> is an association list in insertion order, which is the order
    \<open>for ... in\<close> visits its keys. A key \<open>format(day, 'yyyy-MM-dd')\<close> is represented by the
    number of the calendar day; in a zone of fixed offset this number counts the days from
    1970-01-01, and \<open>civil_of_day\<close> gives its year, month and day. The text is an injective
    rendering of the day for the years from 1 on; earlier dates, where \<open>format\<close> prints the
    year of the era, are outside the model.
  \<^item> \<open>ELD_STATUS_MAP[activityType]\<close> is a property lookup on a plain object, so it also finds
    what the object inherits from \<open>Object.prototype\<close>; the model of the lookup says so.
\<close>

subsection \<open>Dates and time zones\<close>

type_synonym date = "int option"

datatype error = RangeError

definition valid_time :: "int \<Rightarrow> bool" where
  "valid_time t = (\<bar>t\<bar> \<le> 8640000000000000)"

text \<open>\<open>TimeClip\<close> of ECMAScript, which the \<open>Date\<close> constructor and every setter apply: a
  time value beyond the range is \<open>NaN\<close>, any other is cut to an integer towards zero.\<close>

definition TimeClip :: "real \<Rightarrow> date" where
  "TimeClip x = (if \<bar>x\<bar> > 8640000000000000 then None
                 else Some (if x < 0 then \<lceil>x\<rceil> else \<lfloor>x\<rfloor>))"

text \<open>\<open>new Date(value)\<close>.\<close>

definition new_Date :: "real \<Rightarrow> date" where
  "new_Date v = TimeClip v"

text \<open>
  A time zone, as far as the program reads it, is three functions.
  \<^item> The first gives the number of the local calendar day that an instant lies in.
  \<^item> The second gives the instant at which the day of a number starts: what
    \<open>setHours(0, 0, 0, 0)\<close> yields on a date of that day, which is the local midnight, or
    the first instant of the day where a clock change skips midnight.
  \<^item> The third, applied to an instant \<open>t\<close> and a number \<open>n\<close>, gives what
    \<open>setDate(getDate() + n)\<close> yields on \<open>t\<close>: the instant \<open>n\<close> calendar days later at the local
    time of day of \<open>t\<close>.

  Days follow each other in order, every instant lies in its day, from the day's start up
  to the start of the next day, and one day after the start of a day is an instant of the
  next day (its start, unless the earlier day started later than 00:00). A clock change
  that would set the local date back to the day before is not represented.
\<close>

typedef zone = "{z :: (int \<Rightarrow> int) \<times> (int \<Rightarrow> int) \<times> (int \<Rightarrow> int \<Rightarrow> int).
                  strict_mono (fst (snd z))
                  \<and> (\<forall>t. fst (snd z) (fst z t) \<le> t \<and> t < fst (snd z) (fst z t + 1))
                  \<and> (\<forall>k. fst (snd z) (k + 1) \<le> snd (snd z) (fst (snd z) k) 1
                         \<and> snd (snd z) (fst (snd z) k) 1 < fst (snd z) (k + 2))}"
proof
  have "strict_mono (\<lambda>k::int. k * 86400000)" by (rule strict_monoI) simp
  moreover have "\<forall>t::int. t div 86400000 * 86400000 \<le> t \<and> t < (t div 86400000 + 1) * 86400000"
  proof
    fix t :: int
    have "t = t div 86400000 * 86400000 + t mod 86400000" by simp
    moreover have "0 \<le> t mod 86400000" "t mod 86400000 < 86400000" by simp_all
    moreover have "(t div 86400000 + 1) * 86400000 = t div 86400000 * 86400000 + 86400000"
      by (simp add: algebra_simps)
    ultimately show "t div 86400000 * 86400000 \<le> t \<and> t < (t div 86400000 + 1) * 86400000"
      by linarith
  qed
  moreover have "\<forall>k::int. (k + 1) * 86400000 \<le> k * 86400000 + 1 * 86400000
                    \<and> k * 86400000 + 1 * 86400000 < (k + 2) * 86400000"
    by (simp add: algebra_simps)
  ultimately show "(\<lambda>t::int. t div 86400000, \<lambda>k::int. k * 86400000,
                    \<lambda>(t::int) n::int. t + n * 86400000)
      \<in> {z. strict_mono (fst (snd z))
             \<and> (\<forall>t. fst (snd z) (fst z t) \<le> t \<and> t < fst (snd z) (fst z t + 1))
             \<and> (\<forall>k. fst (snd z) (k + 1) \<le> snd (snd z) (fst (snd z) k) 1
                    \<and> snd (snd z) (fst (snd z) k) 1 < fst (snd z) (k + 2))}"
    by simp
qed

definition day_number :: "zone \<Rightarrow> int \<Rightarrow> int" where
  "day_number z t = fst (Rep_zone z) t"

definition midnight :: "zone \<Rightarrow> int \<Rightarrow> int" where
  "midnight z k = fst (snd (Rep_zone z)) k"

definition plus_days :: "zone \<Rightarrow> int \<Rightarrow> int \<Rightarrow> int" where
  "plus_days z t n = snd (snd (Rep_zone z)) t n"

text \<open>The zone at a fixed offset of \<open>tz\<close> milliseconds (local time = UTC + \<open>tz\<close>); its days are
  numbered from 1970-01-01.\<close>

definition fixed_zone :: "int \<Rightarrow> zone" where
  "fixed_zone tz = Abs_zone (\<lambda>t. (t + tz) div 86400000, \<lambda>k. k * 86400000 - tz,
                             \<lambda>t n. t + n * 86400000)"


subsection \<open>The \<open>date-fns\<close> functions used\<close>

text \<open>\<open>addHours(date, amount) = new Date(+date + amount * 3600000)\<close>, as date-fns 3 and 4
  define it (date-fns 2 first truncated \<open>amount\<close> to a whole number).\<close>

definition addHours :: "date \<Rightarrow> real \<Rightarrow> date" where
  "addHours d amount =
     (case d of None \<Rightarrow> None | Some t \<Rightarrow> new_Date (of_int t + amount * 3600000))"

text \<open>\<open>startOfDay(date)\<close> is \<open>date.setHours(0, 0, 0, 0)\<close> on a copy: the start of the local
  calendar day of the date, clipped as every setter clips.\<close>

definition startOfDay :: "zone \<Rightarrow> date \<Rightarrow> date" where
  "startOfDay z d =
     (case d of None \<Rightarrow> None
      | Some t \<Rightarrow> TimeClip (of_int (midnight z (day_number z t))))"

text \<open>\<open>addDays(date, amount)\<close> returns the date when \<open>amount\<close> is 0 and otherwise does
  \<open>date.setDate(date.getDate() + amount)\<close> on a copy: the same local time of day, \<open>amount\<close>
  calendar days later, clipped.\<close>

definition addDays :: "zone \<Rightarrow> date \<Rightarrow> int \<Rightarrow> date" where
  "addDays z d amount =
     (case d of None \<Rightarrow> None
      | Some t \<Rightarrow> if amount = 0 then Some t else TimeClip (of_int (plus_days z t amount)))"

text \<open>\<open>isBefore(d1, d2)\<close> is \<open>+d1 < +d2\<close>, false when either is \<open>NaN\<close>.\<close>

definition isBefore :: "date \<Rightarrow> date \<Rightarrow> bool" where
  "isBefore d1 d2 = (case (d1, d2) of (Some t1, Some t2) \<Rightarrow> t1 < t2 | _ \<Rightarrow> False)"

text \<open>\<open>min([d1, d2])\<close>: the earlier date, and an Invalid Date when either is one.\<close>

definition min_dates :: "date \<Rightarrow> date \<Rightarrow> date" where
  "min_dates d1 d2 = (case (d1, d2) of (Some t1, Some t2) \<Rightarrow> Some (min t1 t2) | _ \<Rightarrow> None)"

text \<open>\<open>differenceInHours(left, right)\<close>: the difference in milliseconds divided by
  3600000 and truncated towards zero (the default rounding method), so always a whole
  number of hours; \<open>None\<close> is \<open>NaN\<close>, the result when a date is invalid.\<close>

definition trunc :: "real \<Rightarrow> int" where
  "trunc x = (if x < 0 then \<lceil>x\<rceil> else \<lfloor>x\<rfloor>)"

definition differenceInHours :: "date \<Rightarrow> date \<Rightarrow> real option" where
  "differenceInHours dateLeft dateRight =
     (case (dateLeft, dateRight) of
        (Some l, Some r) \<Rightarrow> Some (of_int (trunc (of_int (l - r) / 3600000)))
      | _ \<Rightarrow> None)"

text \<open>\<open>format(d, 'yyyy-MM-dd')\<close>, represented by the number of the local calendar day. On an
  Invalid Date \<open>format\<close> throws.\<close>

definition format_yyyy_MM_dd :: "zone \<Rightarrow> date \<Rightarrow> error + int" where
  "format_yyyy_MM_dd z d = (case d of None \<Rightarrow> Inl RangeError | Some t \<Rightarrow> Inr (day_number z t))"

text \<open>Year, month and day of a day number (proleptic Gregorian calendar), to read the
  keys: 400-year eras of 146097 days, the year counted from March.\<close>

definition civil_of_day :: "int \<Rightarrow> int \<times> int \<times> int" where
  "civil_of_day z =
     (let z1 = z + 719468;
          era = z1 div 146097;
          doe = z1 mod 146097;
          yoe = (doe - doe div 1460 + doe div 36524 - doe div 146096) div 365;
          doy = doe - (365 * yoe + yoe div 4 - yoe div 100);
          mp = (5 * doy + 2) div 153;
          d = doy - (153 * mp + 2) div 5 + 1;
          m = (if mp < 10 then mp + 3 else mp - 9);
          y = yoe + era * 400 + (if m \<le> 2 then 1 else 0)
      in (y, m, d))"

subsection \<open>Data\<close>

text \<open>A planned stop, as far as \<open>processTripData\<close> reads it.\<close>

record stop =
  type :: string
  duration_hours :: real

text \<open>
  The value stored in a segment's \<open>status\<close>. It is the result of
  \<open>ELD_STATUS_MAP[activityType] || 'Off Duty'\<close>: a string of the table, or, because the table
  is a plain object literal and the lookup follows the prototype chain, the member of
  \<open>Object.prototype\<close> of that name (a function, or the prototype object itself for
  \<open>__proto__\<close>). Such a member is truthy and \<open>===\<close> only to itself.
\<close>

datatype eld_status = Text string | Inherited string

record segment =
  status :: eld_status
  startHour :: real
  endHour :: real

text \<open>
  The summary object: its four keys, and in \<open>stray\<close> the statuses that \<open>summary[seg.status] +=\<close>
  was applied to without their being one of the four keys. Such an assignment creates a
  further property (holding \<open>NaN\<close>) and leaves the four values as they are.
\<close>

record hours_summary =
  off_duty :: real
  sleeper_birth :: real
  driving :: real
  on_duty_not_driving :: real
  stray :: "eld_status list"

record day_log =
  segments :: "segment list"
  summary :: hours_summary

type_synonym daily_data = "(int \<times> day_log) list"

subsection \<open>Classification of an activity\<close>

definition ELD_STATUS_MAP :: "(string \<times> string) list" where
  "ELD_STATUS_MAP =
     [(''Driving (to Origin)'', ''Driving''),
      (''Driving (to Destination)'', ''Driving''),
      (''Driving'', ''Driving''),
      (''Daily Rest'', ''Off Duty''),
      (''Pickup Stop'', ''On Duty (Not Driving)''),
      (''Refueling Stop'', ''On Duty (Not Driving)''),
      (''Drop-off Stop'', ''On Duty (Not Driving)'')]"

text \<open>The property names of \<open>Object.prototype\<close>, which every object literal inherits.\<close>

definition Object_prototype_keys :: "string list" where
  "Object_prototype_keys =
     [''constructor'', ''hasOwnProperty'', ''isPrototypeOf'', ''propertyIsEnumerable'',
      ''toLocaleString'', ''toString'', ''valueOf'', ''__proto__'',
      ''__defineGetter__'', ''__defineSetter__'', ''__lookupGetter__'', ''__lookupSetter__'']"

text \<open>\<open>ELD_STATUS_MAP[activityType]\<close>: own properties first, then the prototype;
  \<open>None\<close> is \<open>undefined\<close>.\<close>

definition get_ELD_STATUS_MAP :: "string \<Rightarrow> eld_status option" where
  "get_ELD_STATUS_MAP activityType =
     (case map_of ELD_STATUS_MAP activityType of
        Some v \<Rightarrow> Some (Text v)
      | None \<Rightarrow> if activityType \<in> set Object_prototype_keys
                then Some (Inherited activityType) else None)"

text \<open>\<open>ELD_STATUS_MAP[activityType] || 'Off Duty'\<close>: every value the lookup can find is
  truthy (a non-empty string or an object), so the default is taken exactly for
  \<open>undefined\<close>.\<close>

definition eldStatus_of :: "string \<Rightarrow> eld_status" where
  "eldStatus_of activityType =
     (case get_ELD_STATUS_MAP activityType of Some v \<Rightarrow> v | None \<Rightarrow> Text ''Off Duty'')"

subsection \<open>First loop: the stops, split at local midnights\<close>

definition zero_summary :: hours_summary where
  "zero_summary = \<lparr>off_duty = 0, sleeper_birth = 0, driving = 0, on_duty_not_driving = 0,
                   stray = []\<rparr>"

definition new_day :: day_log where
  "new_day = \<lparr>segments = [], summary = zero_summary\<rparr>"

text \<open>\<open>if (!dailyData[key]) dailyData[key] = {segments: [], summary: {...}}\<close>.\<close>

definition ensure_day :: "int \<Rightarrow> daily_data \<Rightarrow> daily_data" where
  "ensure_day k dailyData =
     (if k \<in> set (map fst dailyData) then dailyData else dailyData @ [(k, new_day)])"

text \<open>\<open>dailyData[key].segments.push(seg)\<close>.\<close>

fun push_segment :: "int \<Rightarrow> segment \<Rightarrow> daily_data \<Rightarrow> daily_data" where
  "push_segment k seg [] = []"
| "push_segment k seg ((k', d) # rest) =
     (if k' = k then (k', d\<lparr>segments := segments d @ [seg]\<rparr>) # rest
      else (k', d) # push_segment k seg rest)"

text \<open>
  The \<open>while\<close> loop of one stop. Its state is \<open>tempCurrentTime\<close> and \<open>dailyData\<close>. The
  comparison \<open>segmentDuration > 0\<close> is false when an hour is \<open>NaN\<close>.
\<close>

function split_days :: "zone \<Rightarrow> eld_status \<Rightarrow> date \<Rightarrow> date \<Rightarrow> daily_data \<Rightarrow> error + daily_data"
  where
  "split_days z eldStatus activityEndTime tempCurrentTime dailyData =
     (if isBefore tempCurrentTime activityEndTime then
        let currentDayStart = startOfDay z tempCurrentTime;
            nextDayStart = addDays z currentDayStart 1;
            dayEndForSegment = min_dates activityEndTime nextDayStart
        in case format_yyyy_MM_dd z currentDayStart of
             Inl err \<Rightarrow> Inl err
           | Inr currentDayFormatted \<Rightarrow>
               let dailyData1 = ensure_day currentDayFormatted dailyData;
                   segmentStartHour = differenceInHours tempCurrentTime currentDayStart;
                   segmentEndHour = differenceInHours dayEndForSegment currentDayStart;
                   dailyData2 =
                     (case (segmentStartHour, segmentEndHour) of
                        (Some startHour', Some endHour') \<Rightarrow>
                          if endHour' - startHour' > 0
                          then push_segment currentDayFormatted
                                 \<lparr>status = eldStatus, startHour = startHour',
                                  endHour = endHour'\<rparr> dailyData1
                          else dailyData1
                      | _ \<Rightarrow> dailyData1)
               in split_days z eldStatus activityEndTime nextDayStart dailyData2
      else Inr dailyData)"
  by pat_completeness auto
termination
proof (relation "measure (\<lambda>(z, st, e, t, dd).
                   case (t, e) of (Some a, Some b) \<Rightarrow> nat (b - a) | _ \<Rightarrow> 0)")
  show "wf (measure (\<lambda>(z, st, e, t, dd).
              case (t, e) of (Some a, Some b) \<Rightarrow> nat (b - a) | _ \<Rightarrow> (0::nat)))"
    by simp
next
  fix z :: zone and eldStatus :: eld_status and activityEndTime tempCurrentTime :: date
    and dailyData :: daily_data and x xa xb x2 xc xd xe xf
  assume b: "isBefore tempCurrentTime activityEndTime"
    and x: "x = startOfDay z tempCurrentTime" and xa: "xa = addDays z x 1"
    and f: "format_yyyy_MM_dd z x = Inr x2"
  from b obtain t e where t: "tempCurrentTime = Some t" and e: "activityEndTime = Some e"
    and lt: "t < e"
    by (auto simp: isBefore_def split: option.splits)
  from f obtain m where m: "x = Some m" by (cases x) (simp_all add: format_yyyy_MM_dd_def)
  have rep: "strict_mono (midnight z)"
    "\<And>t. midnight z (day_number z t) \<le> t \<and> t < midnight z (day_number z t + 1)"
    "\<And>k. midnight z (k + 1) \<le> plus_days z (midnight z k) 1"
    using Rep_zone [of z] unfolding midnight_def [abs_def] day_number_def plus_days_def
    by simp_all
  have mid: "m = midnight z (day_number z t)"
    using x m unfolding t startOfDay_def TimeClip_def
    by (simp split: if_splits)
  have gt: "t < plus_days z m 1"
    using rep(2) [of t] rep(3) [of "day_number z t"] unfolding mid by linarith
  show "((z, eldStatus, activityEndTime, xa, xf),
         (z, eldStatus, activityEndTime, tempCurrentTime, dailyData))
        \<in> measure (\<lambda>(z, st, e, t, dd).
                      case (t, e) of (Some a, Some b) \<Rightarrow> nat (b - a) | _ \<Rightarrow> 0)"
  proof (cases xa)
    case None
    then show ?thesis using lt by (simp add: t e)
  next
    case (Some n)
    then have "n = plus_days z m 1"
      using xa unfolding m addDays_def TimeClip_def by (simp split: if_splits)
    with gt lt Some show ?thesis by (simp add: t e)
  qed
qed

declare split_days.simps [simp del]

text \<open>The body of \<open>plannedStops.forEach\<close>; the state is \<open>currentAbsoluteTime\<close> and
  \<open>dailyData\<close>.\<close>

definition process_stop :: "zone \<Rightarrow> date \<times> daily_data \<Rightarrow> stop \<Rightarrow> error + date \<times> daily_data"
  where
  "process_stop z st stop =
     (let currentAbsoluteTime = fst st;
          dailyData = snd st;
          activityType = type stop;
          durationHours = duration_hours stop;
          eldStatus = eldStatus_of activityType;
          activityStartTime = currentAbsoluteTime;
          activityEndTime = addHours currentAbsoluteTime durationHours
      in case split_days z eldStatus activityEndTime activityStartTime dailyData of
           Inl err \<Rightarrow> Inl err
         | Inr dailyData' \<Rightarrow> Inr (activityEndTime, dailyData'))"

text \<open>\<open>plannedStops.forEach\<close>: an exception ends it.\<close>

fun forEach_stop :: "zone \<Rightarrow> date \<times> daily_data \<Rightarrow> stop list \<Rightarrow> error + date \<times> daily_data"
  where
  "forEach_stop z st [] = Inr st"
| "forEach_stop z st (stop # rest) =
     (case process_stop z st stop of
        Inl err \<Rightarrow> Inl err
      | Inr st' \<Rightarrow> forEach_stop z st' rest)"

definition expand_stops :: "zone \<Rightarrow> stop list \<Rightarrow> date \<Rightarrow> error + date \<times> daily_data" where
  "expand_stops z plannedStops startDate = forEach_stop z (startDate, []) plannedStops"

subsection \<open>Second loop: gap filling, merging and the summary of one day\<close>

definition off_duty_segment :: "real \<Rightarrow> real \<Rightarrow> segment" where
  "off_duty_segment s e = \<lparr>status = Text ''Off Duty'', startHour = s, endHour = e\<rparr>"

text \<open>The body of \<open>segments.forEach\<close>; the state is \<open>filledSegments\<close> and
  \<open>currentHourPointer\<close>.\<close>

definition fill_step :: "segment list \<times> real \<Rightarrow> segment \<Rightarrow> segment list \<times> real" where
  "fill_step st seg =
     (let filledSegments = fst st;
          currentHourPointer = snd st;
          actualSegmentStart = max currentHourPointer (startHour seg);
          filled1 = (if actualSegmentStart > currentHourPointer
                     then filledSegments @ [off_duty_segment currentHourPointer actualSegmentStart]
                     else filledSegments);
          filled2 = filled1 @ [\<lparr>status = status seg, startHour = actualSegmentStart,
                                endHour = min 24 (endHour seg)\<rparr>]
      in (filled2, min 24 (endHour seg)))"

definition fill_gaps :: "segment list \<Rightarrow> segment list" where
  "fill_gaps segs =
     (let st = foldl fill_step ([], 0) segs;
          filledSegments = fst st;
          currentHourPointer = snd st
      in if currentHourPointer < 24
         then filledSegments @ [off_duty_segment currentHourPointer 24]
         else filledSegments)"

text \<open>The test of the merging loop.\<close>

definition mergeable :: "segment \<Rightarrow> segment \<Rightarrow> bool" where
  "mergeable currentMerged nextSegment =
     (status currentMerged = status nextSegment
      \<and> \<bar>endHour currentMerged - startHour nextSegment\<bar> < 0.001)"

text \<open>The \<open>for\<close> loop of the merge: \<open>currentMerged\<close>, the segments still to visit, and
  \<open>mergedSegments\<close>.\<close>

fun merge_loop :: "segment \<Rightarrow> segment list \<Rightarrow> segment list \<Rightarrow> segment list" where
  "merge_loop currentMerged [] mergedSegments = mergedSegments @ [currentMerged]"
| "merge_loop currentMerged (nextSegment # rest) mergedSegments =
     (if mergeable currentMerged nextSegment
      then merge_loop (currentMerged\<lparr>endHour := endHour nextSegment\<rparr>) rest mergedSegments
      else merge_loop nextSegment rest (mergedSegments @ [currentMerged]))"

fun merge_segments :: "segment list \<Rightarrow> segment list" where
  "merge_segments [] = []"
| "merge_segments (first # rest) = merge_loop first rest []"

text \<open>\<open>summary[seg.status] += seg.endHour - seg.startHour\<close>.\<close>

definition add_hours :: "hours_summary \<Rightarrow> segment \<Rightarrow> hours_summary" where
  "add_hours sm seg =
     (let h = endHour seg - startHour seg in
      if status seg = Text ''Off Duty'' then sm\<lparr>off_duty := off_duty sm + h\<rparr>
      else if status seg = Text ''Sleeper Birth'' then sm\<lparr>sleeper_birth := sleeper_birth sm + h\<rparr>
      else if status seg = Text ''Driving'' then sm\<lparr>driving := driving sm + h\<rparr>
      else if status seg = Text ''On Duty (Not Driving)''
        then sm\<lparr>on_duty_not_driving := on_duty_not_driving sm + h\<rparr>
      else sm\<lparr>stray := (if status seg \<in> set (stray sm) then stray sm
                          else stray sm @ [status seg])\<rparr>)"

text \<open>\<open>parseFloat(x.toFixed(2))\<close>: the nearest multiple of 0.01, a tie going away from
  zero.\<close>

definition toFixed2 :: "real \<Rightarrow> real" where
  "toFixed2 x = (if x < 0 then - (of_int \<lfloor>(- x) * 100 + 1 / 2\<rfloor> / 100)
                 else of_int \<lfloor>x * 100 + 1 / 2\<rfloor> / 100)"

definition round_summary :: "hours_summary \<Rightarrow> hours_summary" where
  "round_summary sm =
     sm\<lparr>off_duty := toFixed2 (off_duty sm), sleeper_birth := toFixed2 (sleeper_birth sm),
        driving := toFixed2 (driving sm),
        on_duty_not_driving := toFixed2 (on_duty_not_driving sm)\<rparr>"

definition summarize :: "segment list \<Rightarrow> hours_summary" where
  "summarize mergedSegments = round_summary (foldl add_hours zero_summary mergedSegments)"

text \<open>The body of \<open>for (const dateKey in dailyData)\<close>. \<open>Array.prototype.sort\<close> is stable
  and the comparator orders by \<open>startHour\<close>.\<close>

definition post_process :: "day_log \<Rightarrow> day_log" where
  "post_process d =
     (let sorted_segments = sort_key startHour (segments d);
          filledSegments = fill_gaps sorted_segments;
          mergedSegments = merge_segments filledSegments
      in \<lparr>segments = mergedSegments, summary = summarize mergedSegments\<rparr>)"

text \<open>The whole function. An exception of the first loop leaves it without a result.\<close>

definition processTripData :: "zone \<Rightarrow> stop list \<Rightarrow> date \<Rightarrow> error + daily_data" where
  "processTripData z plannedStops startDate =
     (case expand_stops z plannedStops startDate of
        Inl err \<Rightarrow> Inl err
      | Inr st \<Rightarrow> Inr (map (\<lambda>(k, d). (k, post_process d)) (snd st)))"

subsection \<open>\<open>DailySummaryTable\<close>: the three displayed values\<close>

record merged_summary =
  ms_off_duty :: real
  ms_driving :: real
  ms_on_duty_not_driving :: real

definition DailySummaryTable :: "hours_summary \<Rightarrow> merged_summary" where
  "DailySummaryTable summaryData =
     (let mergedSummary = \<lparr>ms_off_duty = off_duty summaryData + sleeper_birth summaryData,
                            ms_driving = driving summaryData,
                            ms_on_duty_not_driving = on_duty_not_driving summaryData\<rparr>;
          total = ms_off_duty mergedSummary + ms_driving mergedSummary
                  + ms_on_duty_not_driving mergedSummary
      in if \<bar>total - 24\<bar> > 0.01
         then mergedSummary\<lparr>ms_off_duty := toFixed2 (ms_off_duty mergedSummary + (24 - total))\<rparr>
         else mergedSummary)"

subsection \<open>Notions used in the statements and proofs\<close>

text \<open>The instant that \<open>addDays\<close> leads to from the start of day \<open>k\<close>: an instant of the day
  after, where the \<open>while\<close> loop goes on.\<close>

definition next_start :: "zone \<Rightarrow> int \<Rightarrow> int" where
  "next_start z k = plus_days z (midnight z k) 1"

text \<open>The whole hours from the start of day \<open>k\<close> to an instant.\<close>

definition hour_in :: "zone \<Rightarrow> int \<Rightarrow> int \<Rightarrow> int" where
  "hour_in z k t = (t - midnight z k) div 3600000"

text \<open>The merge without its accumulator.\<close>

fun merge_run :: "segment \<Rightarrow> segment list \<Rightarrow> segment list" where
  "merge_run c [] = [c]"
| "merge_run c (n # ns) =
     (if mergeable c n then merge_run (c\<lparr>endHour := endHour n\<rparr>) ns else c # merge_run n ns)"

text \<open>Contiguity: the segments lead from hour \<open>a\<close> to hour \<open>b\<close>, each starting where the one
  before it ends.\<close>

fun chain :: "real \<Rightarrow> segment list \<Rightarrow> real \<Rightarrow> bool" where
  "chain a [] b = (a = b)"
| "chain a (s # ss) b = (startHour s = a \<and> chain (endHour s) ss b)"


definition whole_hours :: "segment \<Rightarrow> bool" where
  "whole_hours s = (startHour s \<in> \<int> \<and> endHour s \<in> \<int>)"


text \<open>The four keys of a summary.\<close>

definition known_status :: "eld_status \<Rightarrow> bool" where
  "known_status st = (st = Text ''Off Duty'' \<or> st = Text ''Sleeper Birth'' \<or> st = Text ''Driving''
                      \<or> st = Text ''On Duty (Not Driving)'')"

text \<open>The sum of the four values of a summary.\<close>

definition four_total :: "hours_summary \<Rightarrow> real" where
  "four_total sm = off_duty sm + sleeper_birth sm + driving sm + on_duty_not_driving sm"

text \<open>The summed durations of a list of segments.\<close>

definition total_hours :: "segment list \<Rightarrow> real" where
  "total_hours segs = sum_list (map (\<lambda>s. endHour s - startHour s) segs)"

text \<open>All four values are whole numbers.\<close>

definition whole_summary :: "hours_summary \<Rightarrow> bool" where
  "whole_summary sm = (off_duty sm \<in> \<int> \<and> sleeper_birth sm \<in> \<int> \<and> driving sm \<in> \<int>
                       \<and> on_duty_not_driving sm \<in> \<int>)"






text \<open>A segment of whole hours whose status is in \<open>S\<close>.\<close>

definition from_stops :: "eld_status set \<Rightarrow> segment \<Rightarrow> bool" where
  "from_stops S s = (whole_hours s \<and> status s \<in> S)"

text \<open>The values a \<open>Date\<close> object can hold: a time value within the range, or \<open>NaN\<close>.\<close>

definition is_date :: "date \<Rightarrow> bool" where
  "is_date d = (case d of None \<Rightarrow> True | Some t \<Rightarrow> valid_time t)"

text \<open>Day \<open>k\<close> is a plain day at the offset \<open>tz\<close>: it starts at local midnight, \<open>tz\<close> milliseconds
  ahead of UTC, and \<open>addDays\<close> leads from its start to the local midnight after, at the same
  offset. So the day lasts 24 hours and no clock change touches it.\<close>

definition plain_day :: "zone \<Rightarrow> int \<Rightarrow> int \<Rightarrow> bool" where
  "plain_day z tz k = (midnight z k = k * 86400000 - tz
                        \<and> next_start z k = (k + 1) * 86400000 - tz)"

text \<open>Scenario A of the specification: the trip starts on 2025-08-07 at 08:00 local time
  (1754553600000 is 2025-08-07T08:00:00Z, and \<open>tz\<close> the offset of local time from UTC), with
  eleven hours of driving and ten of rest.\<close>

definition scenario_A_stops :: "stop list" where
  "scenario_A_stops = [\<lparr>type = ''Driving'', duration_hours = 11\<rparr>,
                       \<lparr>type = ''Daily Rest'', duration_hours = 10\<rparr>]"

definition scenario_A_start :: "int \<Rightarrow> date" where
  "scenario_A_start tz = Some (1754553600000 - tz)"

text \<open>The two days Scenario A expects.\<close>

definition scenario_A_day1 :: day_log where
  "scenario_A_day1 =
     \<lparr>segments = [\<lparr>status = Text ''Off Duty'', startHour = 0, endHour = 8\<rparr>,
                  \<lparr>status = Text ''Driving'', startHour = 8, endHour = 19\<rparr>,
                  \<lparr>status = Text ''Off Duty'', startHour = 19, endHour = 24\<rparr>],
      summary = \<lparr>off_duty = 13, sleeper_birth = 0, driving = 11, on_duty_not_driving = 0,
                 stray = []\<rparr>\<rparr>"

definition scenario_A_day2 :: day_log where
  "scenario_A_day2 =
     \<lparr>segments = [\<lparr>status = Text ''Off Duty'', startHour = 0, endHour = 24\<rparr>],
      summary = \<lparr>off_duty = 24, sleeper_birth = 0, driving = 0, on_duty_not_driving = 0,
                 stray = []\<rparr>\<rparr>"

section \<open>Lemmas\<close>

subsection \<open>Time zones\<close>

lemma zone_rep:
  "strict_mono (midnight z)"
  "midnight z (day_number z t) \<le> t"
  "t < midnight z (day_number z t + 1)"
  "midnight z (k + 1) \<le> next_start z k"
  "next_start z k < midnight z (k + 2)"
  using Rep_zone [of z]
  unfolding midnight_def [abs_def] day_number_def next_start_def plus_days_def by simp_all

lemma midnight_less: "midnight z j < midnight z k \<longleftrightarrow> j < k"
  using zone_rep(1) [of z] by (rule strict_mono_less)


lemma day_number_unique:
  assumes "midnight z k \<le> t" "t < midnight z (k + 1)"
  shows "day_number z t = k"
proof -
  have "midnight z (day_number z t) < midnight z (k + 1)"
    using zone_rep(2) [of z t] assms(2) by linarith
  then have 1: "day_number z t < k + 1" by (simp only: midnight_less)
  have "midnight z k < midnight z (day_number z t + 1)"
    using zone_rep(3) [of t z] assms(1) by linarith
  then have 2: "k < day_number z t + 1" by (simp only: midnight_less)
  from 1 2 show ?thesis by simp
qed

lemma day_number_midnight: "day_number z (midnight z k) = k"
proof (rule day_number_unique)
  show "midnight z k \<le> midnight z k" by simp
  show "midnight z k < midnight z (k + 1)" by (simp add: midnight_less)
qed

lemma fixed_zone_rep:
  "Rep_zone (fixed_zone tz) = (\<lambda>t. (t + tz) div 86400000, \<lambda>k. k * 86400000 - tz,
                               \<lambda>t n. t + n * 86400000)"
  unfolding fixed_zone_def
proof (rule Abs_zone_inverse)
  have "strict_mono (\<lambda>k::int. k * 86400000 - tz)" by (rule strict_monoI) simp
  moreover have "\<forall>t::int. (t + tz) div 86400000 * 86400000 - tz \<le> t
      \<and> t < ((t + tz) div 86400000 + 1) * 86400000 - tz"
  proof
    fix t :: int
    have "t + tz = (t + tz) div 86400000 * 86400000 + (t + tz) mod 86400000" by simp
    moreover have "0 \<le> (t + tz) mod 86400000" "(t + tz) mod 86400000 < 86400000" by simp_all
    moreover have "((t + tz) div 86400000 + 1) * 86400000
        = (t + tz) div 86400000 * 86400000 + 86400000"
      by (simp add: algebra_simps)
    ultimately show "(t + tz) div 86400000 * 86400000 - tz \<le> t
      \<and> t < ((t + tz) div 86400000 + 1) * 86400000 - tz"
      by linarith
  qed
  moreover have "\<forall>k::int. (k + 1) * 86400000 - tz \<le> k * 86400000 - tz + 1 * 86400000
                    \<and> k * 86400000 - tz + 1 * 86400000 < (k + 2) * 86400000 - tz"
    by (simp add: algebra_simps)
  ultimately show "(\<lambda>t. (t + tz) div 86400000, \<lambda>k. k * 86400000 - tz, \<lambda>t n. t + n * 86400000)
      \<in> {z. strict_mono (fst (snd z))
             \<and> (\<forall>t. fst (snd z) (fst z t) \<le> t \<and> t < fst (snd z) (fst z t + 1))
             \<and> (\<forall>k. fst (snd z) (k + 1) \<le> snd (snd z) (fst (snd z) k) 1
                    \<and> snd (snd z) (fst (snd z) k) 1 < fst (snd z) (k + 2))}"
    by simp
qed

lemma day_number_fixed_zone: "day_number (fixed_zone tz) t = (t + tz) div 86400000"
  by (simp add: day_number_def fixed_zone_rep)

lemma midnight_fixed_zone: "midnight (fixed_zone tz) k = k * 86400000 - tz"
  by (simp add: midnight_def fixed_zone_rep)

lemma plus_days_fixed_zone: "plus_days (fixed_zone tz) t n = t + n * 86400000"
  by (simp add: plus_days_def fixed_zone_rep)






subsection \<open>Dates\<close>

lemma TimeClip_of_int: "TimeClip (of_int m) = (if valid_time m then Some m else None)"
proof -
  have "\<bar>real_of_int m\<bar> > 8640000000000000 \<longleftrightarrow> \<not> valid_time m"
    unfolding valid_time_def by linarith
  then show ?thesis by (simp add: TimeClip_def)
qed

lemma TimeClip_valid: "TimeClip x = Some t \<Longrightarrow> valid_time t"
proof -
  assume a: "TimeClip x = Some t"
  then have b: "\<bar>x\<bar> \<le> 8640000000000000" by (simp add: TimeClip_def split: if_splits)
  show ?thesis
  proof (cases "x < 0")
    case True
    with a b have t: "t = \<lceil>x\<rceil>" by (simp add: TimeClip_def)
    have "- 8640000000000000 \<le> x" using b by linarith
    then have "- 8640000000000000 \<le> \<lceil>x\<rceil>" by (simp add: le_ceiling_iff)
    moreover have "\<lceil>x\<rceil> \<le> 0" using True by (simp add: ceiling_le_iff)
    ultimately show ?thesis unfolding t valid_time_def by linarith
  next
    case False
    with a b have t: "t = \<lfloor>x\<rfloor>" by (simp add: TimeClip_def)
    have "x \<le> 8640000000000000" using b by linarith
    then have "\<lfloor>x\<rfloor> \<le> 8640000000000000" by (simp add: floor_le_iff)
    moreover have "0 \<le> \<lfloor>x\<rfloor>" using False by simp
    ultimately show ?thesis unfolding t valid_time_def by linarith
  qed
qed

lemma addHours_zero: "valid_time t \<Longrightarrow> addHours (Some t) 0 = Some t"
  by (simp add: addHours_def new_Date_def TimeClip_of_int)

lemma addHours_new_Date_zero: "addHours (new_Date v) 0 = new_Date v"
proof (cases "new_Date v")
  case None
  then show ?thesis by (simp add: addHours_def)
next
  case (Some t)
  then have "valid_time t" unfolding new_Date_def by (rule TimeClip_valid)
  then show ?thesis unfolding Some by (rule addHours_zero)
qed

lemma addHours_of_int:
  "addHours (Some t) (of_int n)
     = (if valid_time (t + n * 3600000) then Some (t + n * 3600000) else None)"
proof -
  have "real_of_int t + of_int n * 3600000 = of_int (t + n * 3600000)" by simp
  then show ?thesis unfolding addHours_def new_Date_def
    by (simp only: TimeClip_of_int option.case)
qed

lemma addHours_numeral:
  "addHours (Some t) (numeral n)
     = (if valid_time (t + numeral n * 3600000) then Some (t + numeral n * 3600000) else None)"
  using addHours_of_int [of t "numeral n"] by simp


lemma differenceInHours_nonneg:
  "r \<le> l \<Longrightarrow> differenceInHours (Some l) (Some r) = Some (of_int ((l - r) div 3600000))"
proof -
  assume "r \<le> l"
  then have "0 \<le> real_of_int (l - r) / 3600000" by simp
  moreover have "\<lfloor>real_of_int (l - r) / 3600000\<rfloor> = (l - r) div 3600000"
    using floor_divide_of_int_eq [of "l - r" 3600000, where ?'a = real] by simp
  ultimately show ?thesis by (simp add: differenceInHours_def trunc_def)
qed

subsection \<open>One pass of the \<open>while\<close> loop\<close>

lemma split_days_done: "\<not> isBefore t e \<Longrightarrow> split_days z st e t dd = Inr dd"
  by (simp add: split_days.simps [of z st e t dd])

lemma isBefore_Some [simp]: "isBefore (Some a) (Some b) = (a < b)"
  by (simp add: isBefore_def)

lemma isBefore_None [simp]: "isBefore None e = False" "isBefore t None = False"
  by (simp_all add: isBefore_def split: option.splits)

lemma split_days_error:
  assumes "a < b" "\<not> valid_time (midnight z (day_number z a))"
  shows "split_days z st (Some b) (Some a) dd = Inl RangeError"
  using assms
  by (simp add: split_days.simps [of z st "Some b" "Some a" dd] startOfDay_def TimeClip_of_int
      format_yyyy_MM_dd_def)

lemma split_days_step:
  assumes "a < b" and v: "valid_time (midnight z (day_number z a))"
    and v': "valid_time (next_start z (day_number z a))"
  shows "split_days z st (Some b) (Some a) dd =
    split_days z st (Some b) (Some (next_start z (day_number z a)))
      (if hour_in z (day_number z a) a
            < hour_in z (day_number z a) (min b (next_start z (day_number z a)))
       then push_segment (day_number z a)
              \<lparr>status = st, startHour = of_int (hour_in z (day_number z a) a),
               endHour = of_int (hour_in z (day_number z a)
                                   (min b (next_start z (day_number z a))))\<rparr>
              (ensure_day (day_number z a) dd)
       else ensure_day (day_number z a) dd)"
proof -
  let ?k = "day_number z a"
  let ?m = "midnight z ?k"
  let ?n = "next_start z ?k"
  have sod: "startOfDay z (Some a) = Some ?m" using v by (simp add: startOfDay_def TimeClip_of_int)
  have nd: "addDays z (Some ?m) 1 = Some ?n"
    using v' by (simp add: addDays_def TimeClip_of_int next_start_def)
  have key: "format_yyyy_MM_dd z (Some ?m) = Inr ?k"
    by (simp add: format_yyyy_MM_dd_def day_number_midnight)
  have de: "min_dates (Some b) (Some ?n) = Some (min b ?n)" by (simp add: min_dates_def)
  have le1: "?m \<le> a" by (rule zone_rep(2))
  have "a < ?n" using zone_rep(3) [of a z] zone_rep(4) [of z ?k] by linarith
  with le1 assms(1) have le2: "?m \<le> min b ?n" by simp
  have sh: "differenceInHours (Some a) (Some ?m) = Some (of_int (hour_in z ?k a))"
    using differenceInHours_nonneg [OF le1] by (simp add: hour_in_def)
  have eh: "differenceInHours (Some (min b ?n)) (Some ?m)
              = Some (of_int (hour_in z ?k (min b ?n)))"
    using differenceInHours_nonneg [OF le2] by (simp add: hour_in_def)
  show ?thesis
    apply (subst split_days.simps)
    apply (simp only: Let_def sod nd key de sh eh isBefore_Some assms(1) if_True sum.case
        prod.case option.case)
    apply simp
    done
qed

lemma split_days_last:
  assumes "a < b" and v: "valid_time (midnight z (day_number z a))"
    and v': "\<not> valid_time (next_start z (day_number z a))"
  shows "split_days z st (Some b) (Some a) dd = Inr (ensure_day (day_number z a) dd)"
proof -
  let ?k = "day_number z a"
  let ?m = "midnight z ?k"
  have sod: "startOfDay z (Some a) = Some ?m" using v by (simp add: startOfDay_def TimeClip_of_int)
  have nd: "addDays z (Some ?m) 1 = None"
    using v' by (simp add: addDays_def TimeClip_of_int next_start_def)
  have key: "format_yyyy_MM_dd z (Some ?m) = Inr ?k"
    by (simp add: format_yyyy_MM_dd_def day_number_midnight)
  have de: "min_dates (Some b) None = None" by (simp add: min_dates_def)
  have eh: "differenceInHours None (Some ?m) = None" by (simp add: differenceInHours_def)
  show ?thesis
    apply (subst split_days.simps)
    apply (simp only: Let_def sod nd key de eh isBefore_Some assms(1) if_True sum.case)
    apply (simp add: split_days_done split: option.splits)
    done
qed

lemma after_day: "a < next_start z (day_number z a)"
  using zone_rep(3) [of a z] zone_rep(4) [of z "day_number z a"] by linarith


lemma next_start_fixed_zone: "next_start (fixed_zone tz) k = (k + 1) * 86400000 - tz"
  by (simp add: next_start_def plus_days_fixed_zone midnight_fixed_zone algebra_simps)


subsection \<open>The merge\<close>

lemma merge_loop_run: "merge_loop c rest acc = acc @ merge_run c rest"
  by (induction rest arbitrary: c acc) auto

lemma merge_segments_run: "merge_segments (c # rest) = merge_run c rest"
  by (simp add: merge_loop_run)

lemma merge_run_hd':
  "merge_run c rest \<noteq> [] \<and> status (hd (merge_run c rest)) = status c
     \<and> startHour (hd (merge_run c rest)) = startHour c"
  by (induction rest arbitrary: c) auto

lemma merge_run_hd:
  "\<exists>c' tl. merge_run c rest = c' # tl \<and> status c' = status c \<and> startHour c' = startHour c"
  using merge_run_hd' [of c rest] by (cases "merge_run c rest") auto

lemma mergeable_cong:
  "status n' = status n \<Longrightarrow> startHour n' = startHour n \<Longrightarrow> mergeable c n' = mergeable c n"
  by (simp add: mergeable_def)

lemma merge_run_unmergeable:
  "successively (\<lambda>x y. \<not> mergeable x y) (merge_run c rest)"
proof (induction rest arbitrary: c)
  case Nil
  show ?case by simp
next
  case (Cons n ns)
  show ?case
  proof (cases "mergeable c n")
    case True
    then show ?thesis using Cons.IH by simp
  next
    case False
    obtain c' tl where h: "merge_run n ns = c' # tl" "status c' = status n"
      "startHour c' = startHour n"
      using merge_run_hd by blast
    have "\<not> mergeable c c'" using False mergeable_cong [OF h(2) h(3)] by simp
    moreover have "successively (\<lambda>x y. \<not> mergeable x y) (c' # tl)"
      using Cons.IH [of n] h(1) by simp
    ultimately show ?thesis using False h(1) by simp
  qed
qed

lemma merge_run_fixed:
  "successively (\<lambda>x y. \<not> mergeable x y) (c # rest) \<Longrightarrow> merge_run c rest = c # rest"
  by (induction rest arbitrary: c) auto

subsection \<open>Merging a contiguous sequence\<close>

lemma chain_snoc: "chain a (xs @ [s]) b \<longleftrightarrow> chain a xs (startHour s) \<and> endHour s = b"
  by (induction xs arbitrary: a) auto

lemma merge_run_chain: "chain a (c # rest) b \<Longrightarrow> chain a (merge_run c rest) b"
proof (induction rest arbitrary: c a)
  case Nil
  then show ?case by simp
next
  case (Cons n ns)
  from Cons.prems have s: "startHour c = a" and e: "startHour n = endHour c"
    and r: "chain (endHour n) ns b" by simp_all
  show ?case
  proof (cases "mergeable c n")
    case True
    have "chain a (c\<lparr>endHour := endHour n\<rparr> # ns) b" using s r by simp
    from Cons.IH [OF this] True show ?thesis by simp
  next
    case False
    have "chain (endHour c) (n # ns) b" using e r by simp
    from Cons.IH [OF this] False s show ?thesis by simp
  qed
qed


lemma merge_run_whole:
  "\<forall>s\<in>set (c # rest). whole_hours s \<Longrightarrow> \<forall>s\<in>set (merge_run c rest). whole_hours s"
proof (induction rest arbitrary: c)
  case Nil
  then show ?case by simp
next
  case (Cons n ns)
  from Cons.prems have c: "whole_hours c" and n: "whole_hours n"
    and ns: "\<forall>s\<in>set ns. whole_hours s" by simp_all
  show ?case
  proof (cases "mergeable c n")
    case True
    have "whole_hours (c\<lparr>endHour := endHour n\<rparr>)" using c n by (simp add: whole_hours_def)
    with ns have "\<forall>s\<in>set (c\<lparr>endHour := endHour n\<rparr> # ns). whole_hours s" by simp
    from Cons.IH [OF this] True show ?thesis by simp
  next
    case False
    from n ns have "\<forall>s\<in>set (n # ns). whole_hours s" by simp
    from Cons.IH [OF this] False c show ?thesis by simp
  qed
qed

lemma merge_run_status:
  "status ` set (merge_run c rest) \<subseteq> status ` set (c # rest)"
proof (induction rest arbitrary: c)
  case Nil
  show ?case by simp
next
  case (Cons n ns)
  show ?case
  proof (cases "mergeable c n")
    case True
    have "status ` set (merge_run (c\<lparr>endHour := endHour n\<rparr>) ns)
            \<subseteq> insert (status c) (status ` set ns)"
      using Cons.IH [of "c\<lparr>endHour := endHour n\<rparr>"] by simp
    then show ?thesis using True by auto
  next
    case False
    have "status ` set (merge_run n ns) \<subseteq> insert (status n) (status ` set ns)"
      using Cons.IH [of n] by simp
    then show ?thesis using False by auto
  qed
qed

lemma chain_unmergeable_status:
  "chain a xs b \<Longrightarrow> successively (\<lambda>x y. \<not> mergeable x y) xs
     \<Longrightarrow> successively (\<lambda>x y. status x \<noteq> status y) xs"
proof (induction xs arbitrary: a rule: induct_list012)
  case 1
  show ?case by simp
next
  case (2 x)
  show ?case by simp
next
  case (3 x y zs)
  from "3.prems" have e: "endHour x = startHour y" by simp
  from "3.prems" have "\<not> mergeable x y" by simp
  with e have "status x \<noteq> status y" by (simp add: mergeable_def)
  moreover have "successively (\<lambda>x y. status x \<noteq> status y) (y # zs)"
    using "3.IH"(2) [of "endHour x"] "3.prems" by simp
  ultimately show ?case by simp
qed

lemma merge_segments_chain: "chain a segs b \<Longrightarrow> chain a (merge_segments segs) b"
proof (cases segs)
  case Nil
  assume "chain a segs b"
  then show ?thesis using Nil by simp
next
  case (Cons c rest)
  assume "chain a segs b"
  then have "chain a (c # rest) b" using Cons by (simp only:)
  then have "chain a (merge_run c rest) b" by (rule merge_run_chain)
  then show ?thesis using Cons by (simp only: merge_segments_run)
qed

lemma merge_segments_alternate:
  "chain a segs b \<Longrightarrow> successively (\<lambda>x y. status x \<noteq> status y) (merge_segments segs)"
proof -
  assume "chain a segs b"
  then have c: "chain a (merge_segments segs) b" by (rule merge_segments_chain)
  have "successively (\<lambda>x y. \<not> mergeable x y) (merge_segments segs)"
    by (cases segs) (simp_all only: merge_segments.simps(1) merge_segments_run
        merge_run_unmergeable successively.simps(1))
  with c show ?thesis by (rule chain_unmergeable_status)
qed


lemma merge_segments_whole:
  "\<forall>s\<in>set segs. whole_hours s \<Longrightarrow> \<forall>s\<in>set (merge_segments segs). whole_hours s"
proof (cases segs)
  case Nil
  then show ?thesis by simp
next
  case (Cons c rest)
  assume "\<forall>s\<in>set segs. whole_hours s"
  then have "\<forall>s\<in>set (c # rest). whole_hours s" using Cons by (simp only:)
  then have "\<forall>s\<in>set (merge_run c rest). whole_hours s" by (rule merge_run_whole)
  then show ?thesis using Cons by (simp only: merge_segments_run)
qed

lemma merge_segments_status:
  "status ` set (merge_segments segs) \<subseteq> status ` set segs"
proof (cases segs)
  case Nil
  then show ?thesis by simp
next
  case (Cons c rest)
  show ?thesis using merge_run_status [of c rest] Cons by (simp only: merge_segments_run)
qed

subsection \<open>Gap filling\<close>

lemma chain_appendI: "chain a xs m \<Longrightarrow> chain m ys b \<Longrightarrow> chain a (xs @ ys) b"
  by (induction xs arbitrary: a) simp_all

lemma fill_step_chain:
  assumes "chain a (fst st) (snd st)"
  shows "chain a (fst (fill_step st seg)) (snd (fill_step st seg))"
proof (cases "snd st < startHour seg")
  case True
  then have m: "max (snd st) (startHour seg) = startHour seg" by simp
  have "chain (snd st) [off_duty_segment (snd st) (startHour seg),
           \<lparr>status = status seg, startHour = startHour seg, endHour = min 24 (endHour seg)\<rparr>]
          (min 24 (endHour seg))"
    by (simp add: off_duty_segment_def)
  with assms have "chain a (fst st @ [off_duty_segment (snd st) (startHour seg),
           \<lparr>status = status seg, startHour = startHour seg, endHour = min 24 (endHour seg)\<rparr>])
          (min 24 (endHour seg))"
    by (rule chain_appendI)
  then show ?thesis using True by (simp add: fill_step_def Let_def m)
next
  case False
  then have m: "max (snd st) (startHour seg) = snd st" by simp
  show ?thesis using assms
    by (simp add: fill_step_def Let_def m chain_snoc)
qed

lemma fill_fold_chain:
  "chain a (fst st) (snd st)
   \<Longrightarrow> chain a (fst (foldl fill_step st segs)) (snd (foldl fill_step st segs))"
proof (induction segs arbitrary: st)
  case Nil
  then show ?case by simp
next
  case (Cons s ss)
  have "chain a (fst (fill_step st s)) (snd (fill_step st s))"
    using Cons.prems by (rule fill_step_chain)
  from Cons.IH [OF this] show ?case by simp
qed

lemma fill_step_le: "snd (fill_step st seg) \<le> 24"
  by (simp add: fill_step_def Let_def)

lemma fill_fold_le: "snd st \<le> 24 \<Longrightarrow> snd (foldl fill_step st segs) \<le> 24"
proof (induction segs arbitrary: st)
  case Nil
  then show ?case by simp
next
  case (Cons s ss)
  show ?case using Cons.IH [OF fill_step_le [of st s]] by simp
qed

lemma fill_gaps_chain: "chain 0 (fill_gaps segs) 24"
proof -
  let ?st = "foldl fill_step ([], 0) segs"
  have c: "chain 0 (fst ?st) (snd ?st)" by (rule fill_fold_chain) simp
  have le: "snd ?st \<le> 24" by (rule fill_fold_le) simp
  show ?thesis
  proof (cases "snd ?st < 24")
    case True
    then show ?thesis using c by (simp add: fill_gaps_def Let_def chain_snoc off_duty_segment_def)
  next
    case False
    with le have "snd ?st = 24" by simp
    then show ?thesis using c False by (simp add: fill_gaps_def Let_def)
  qed
qed




lemma fill_step_whole:
  assumes "\<forall>x\<in>set (fst st). whole_hours x" "snd st \<in> \<int>" "whole_hours s"
  shows "(\<forall>x\<in>set (fst (fill_step st s)). whole_hours x) \<and> snd (fill_step st s) \<in> \<int>"
proof -
  have "(24::real) \<in> \<int>" by simp
  then have mn: "min 24 (endHour s) \<in> \<int>" using assms(3)
    by (simp add: min_def whole_hours_def)
  show ?thesis
  proof (cases "snd st < startHour s")
    case True
    then have m: "max (snd st) (startHour s) = startHour s" by simp
    have g: "whole_hours (off_duty_segment (snd st) (startHour s))"
      using assms(2,3) by (simp add: whole_hours_def off_duty_segment_def)
    have r: "whole_hours \<lparr>status = status s, startHour = startHour s,
                          endHour = min 24 (endHour s)\<rparr>"
      using assms(3) mn by (simp add: whole_hours_def)
    show ?thesis using assms(1) g r mn by (simp add: fill_step_def Let_def m)
  next
    case False
    then have m: "max (snd st) (startHour s) = snd st" by simp
    have r: "whole_hours \<lparr>status = status s, startHour = snd st,
                          endHour = min 24 (endHour s)\<rparr>"
      using assms(2) mn by (simp add: whole_hours_def)
    show ?thesis using assms(1) r mn by (simp add: fill_step_def Let_def m)
  qed
qed

lemma fill_fold_whole:
  "\<forall>x\<in>set (fst st). whole_hours x \<Longrightarrow> snd st \<in> \<int> \<Longrightarrow> \<forall>s\<in>set segs. whole_hours s
   \<Longrightarrow> (\<forall>x\<in>set (fst (foldl fill_step st segs)). whole_hours x)
       \<and> snd (foldl fill_step st segs) \<in> \<int>"
proof (induction segs arbitrary: st)
  case Nil
  then show ?case by simp
next
  case (Cons s ss)
  from Cons.prems(3) have s: "whole_hours s" and ss: "\<forall>s\<in>set ss. whole_hours s" by simp_all
  from fill_step_whole [OF Cons.prems(1,2) s]
  have 1: "\<forall>x\<in>set (fst (fill_step st s)). whole_hours x"
    and 2: "snd (fill_step st s) \<in> \<int>" by simp_all
  from Cons.IH [OF 1 2 ss] show ?case by simp
qed

lemma fill_gaps_whole:
  assumes "\<forall>s\<in>set segs. whole_hours s"
  shows "\<forall>x\<in>set (fill_gaps segs). whole_hours x"
proof -
  let ?st = "foldl fill_step ([], 0) segs"
  have f: "(\<forall>x\<in>set (fst ?st). whole_hours x) \<and> snd ?st \<in> \<int>"
    using fill_fold_whole [of "([], 0)" segs] assms by simp
  have "(24::real) \<in> \<int>" by simp
  with f have "whole_hours (off_duty_segment (snd ?st) 24)"
    by (simp add: whole_hours_def off_duty_segment_def)
  with f show ?thesis by (simp add: fill_gaps_def Let_def)
qed

lemma fill_step_status:
  "status ` set (fst (fill_step st s))
     \<subseteq> insert (Text ''Off Duty'') (insert (status s) (status ` set (fst st)))"
  by (auto simp: fill_step_def Let_def off_duty_segment_def)

lemma fill_fold_status:
  "status ` set (fst (foldl fill_step st segs))
     \<subseteq> insert (Text ''Off Duty'') (status ` set segs \<union> status ` set (fst st))"
proof (induction segs arbitrary: st)
  case Nil
  show ?case by auto
next
  case (Cons s ss)
  have "status ` set (fst (foldl fill_step (fill_step st s) ss))
          \<subseteq> insert (Text ''Off Duty'') (status ` set ss \<union> status ` set (fst (fill_step st s)))"
    by (rule Cons.IH)
  with fill_step_status [of st s]
  have "status ` set (fst (foldl fill_step (fill_step st s) ss))
          \<subseteq> insert (Text ''Off Duty'') (status ` set (s # ss) \<union> status ` set (fst st))"
    by (simp only: list.set image_insert) blast
  then show ?case by simp
qed

lemma fill_gaps_status:
  "status ` set (fill_gaps segs) \<subseteq> insert (Text ''Off Duty'') (status ` set segs)"
proof -
  have "status ` set (fst (foldl fill_step ([], 0) segs))
          \<subseteq> insert (Text ''Off Duty'') (status ` set segs)"
    using fill_fold_status [of "([], 0)" segs] by simp
  then show ?thesis by (auto simp: fill_gaps_def Let_def off_duty_segment_def)
qed

subsection \<open>What contiguity gives\<close>





lemma chain_total: "chain a xs b \<Longrightarrow> total_hours xs = b - a"
proof (induction xs arbitrary: a)
  case Nil
  then show ?case by (simp add: total_hours_def)
next
  case (Cons x xs)
  from Cons.prems have s: "startHour x = a" and c: "chain (endHour x) xs b" by simp_all
  from Cons.IH [OF c] s show ?case by (simp add: total_hours_def)
qed

subsection \<open>The summary\<close>

lemma add_hours_known:
  "known_status (status s)
   \<Longrightarrow> four_total (add_hours sm s) = four_total sm + (endHour s - startHour s)"
  by (auto simp: known_status_def add_hours_def Let_def four_total_def)

lemma fold_add_hours_known:
  "\<forall>s\<in>set segs. known_status (status s)
   \<Longrightarrow> four_total (foldl add_hours sm segs) = four_total sm + total_hours segs"
proof (induction segs arbitrary: sm)
  case Nil
  then show ?case by (simp add: total_hours_def)
next
  case (Cons s ss)
  from Cons.prems have k: "known_status (status s)"
    and ks: "\<forall>s\<in>set ss. known_status (status s)" by simp_all
  show ?case using Cons.IH [OF ks, of "add_hours sm s"] add_hours_known [OF k, of sm]
    by (simp add: total_hours_def)
qed

lemma add_hours_whole:
  assumes "whole_summary sm" "whole_hours s"
  shows "whole_summary (add_hours sm s)"
proof -
  have h: "endHour s - startHour s \<in> \<int>" using assms(2) by (simp add: whole_hours_def)
  show ?thesis using assms(1) h
    by (simp add: whole_summary_def add_hours_def Let_def)
qed

lemma fold_add_hours_whole:
  "whole_summary sm \<Longrightarrow> \<forall>s\<in>set segs. whole_hours s \<Longrightarrow> whole_summary (foldl add_hours sm segs)"
proof (induction segs arbitrary: sm)
  case Nil
  then show ?case by simp
next
  case (Cons s ss)
  from Cons.prems(2) have s: "whole_hours s" and ss: "\<forall>s\<in>set ss. whole_hours s" by simp_all
  from Cons.IH [OF add_hours_whole [OF Cons.prems(1) s] ss] show ?case by simp
qed

lemma toFixed2_hundredth: "toFixed2 (of_int m / 100) = of_int m / 100"
proof -
  have f: "\<lfloor>real_of_int k + 1 / 2\<rfloor> = k" for k by linarith
  show ?thesis
  proof (cases "m < 0")
    case True
    have "\<lfloor>- (real_of_int m / 100) * 100 + 1 / 2\<rfloor> = \<lfloor>real_of_int (- m) + 1 / 2\<rfloor>" by simp
    also have "\<dots> = - m" by (rule f)
    finally show ?thesis using True by (simp add: toFixed2_def)
  next
    case False
    have "\<lfloor>real_of_int m / 100 * 100 + 1 / 2\<rfloor> = \<lfloor>real_of_int m + 1 / 2\<rfloor>" by simp
    also have "\<dots> = m" by (rule f)
    finally show ?thesis using False by (simp add: toFixed2_def)
  qed
qed

lemma toFixed2_whole: "x \<in> \<int> \<Longrightarrow> toFixed2 x = x"
proof -
  assume "x \<in> \<int>"
  then obtain k where x: "x = of_int k" by (auto elim: Ints_cases)
  have "toFixed2 (of_int (k * 100) / 100) = of_int (k * 100) / 100" by (rule toFixed2_hundredth)
  then show ?thesis using x by simp
qed

lemma toFixed2_is_hundredth: "\<exists>m. toFixed2 x = of_int m / 100"
  by (cases "x < 0") (auto simp: toFixed2_def intro: exI [of _ "- \<lfloor>- x * 100 + 1 / 2\<rfloor>"])

lemma round_summary_whole: "whole_summary sm \<Longrightarrow> round_summary sm = sm"
  by (simp add: whole_summary_def round_summary_def toFixed2_whole)

subsection \<open>The second loop\<close>


lemma post_process_segments:
  "segments (post_process d) = merge_segments (fill_gaps (sort_key startHour (segments d)))"
  by (simp add: post_process_def Let_def)

lemma post_process_summary: "summary (post_process d) = summarize (segments (post_process d))"
  by (simp add: post_process_def Let_def)


lemma post_process_chain: "chain 0 (segments (post_process d)) 24"
  unfolding post_process_segments by (rule merge_segments_chain) (rule fill_gaps_chain)

lemma post_process_alternate:
  "successively (\<lambda>x y. status x \<noteq> status y) (segments (post_process d))"
  unfolding post_process_segments by (rule merge_segments_alternate) (rule fill_gaps_chain)


lemma post_process_whole:
  assumes "\<forall>s\<in>set (segments d). whole_hours s"
  shows "\<forall>s\<in>set (segments (post_process d)). whole_hours s"
proof -
  have "\<forall>s\<in>set (sort_key startHour (segments d)). whole_hours s" using assms by simp
  then show ?thesis unfolding post_process_segments
    by (intro merge_segments_whole fill_gaps_whole)
qed

lemma post_process_status:
  "status ` set (segments (post_process d)) \<subseteq> insert (Text ''Off Duty'') (status ` set (segments d))"
proof -
  have "status ` set (fill_gaps (sort_key startHour (segments d)))
          \<subseteq> insert (Text ''Off Duty'') (status ` set (segments d))"
    using fill_gaps_status [of "sort_key startHour (segments d)"] by simp
  with merge_segments_status [of "fill_gaps (sort_key startHour (segments d))"]
  show ?thesis unfolding post_process_segments by (rule subset_trans)
qed

lemma in_processTripData:
  "processTripData z stops start = Inr days \<Longrightarrow> (k, d') \<in> set days
   \<Longrightarrow> \<exists>c dd d. expand_stops z stops start = Inr (c, dd) \<and> (k, d) \<in> set dd
         \<and> d' = post_process d"
  by (auto simp: processTripData_def split: sum.splits)

lemma chain_successively:
  "chain a xs b \<Longrightarrow> successively (\<lambda>x y. endHour x = startHour y) xs"
  by (induction xs arbitrary: a rule: induct_list012) simp_all

subsection \<open>Classification\<close>

lemma eldStatus_of_known:
  "activityType \<notin> set Object_prototype_keys \<Longrightarrow> known_status (eldStatus_of activityType)"
  by (simp add: eldStatus_of_def get_ELD_STATUS_MAP_def ELD_STATUS_MAP_def known_status_def)

lemma eldStatus_of_unmapped:
  "map_of ELD_STATUS_MAP activityType = None \<Longrightarrow> activityType \<notin> set Object_prototype_keys
   \<Longrightarrow> eldStatus_of activityType = Text ''Off Duty''"
  by (simp add: eldStatus_of_def get_ELD_STATUS_MAP_def)

subsection \<open>The summary of a day\<close>

lemma summarize_known:
  assumes c: "chain 0 segs 24" and w: "\<forall>s\<in>set segs. whole_hours s"
    and k: "\<forall>s\<in>set segs. known_status (status s)"
  shows "four_total (summarize segs) = 24"
proof -
  have z: "whole_summary zero_summary" by (simp add: whole_summary_def zero_summary_def)
  have "whole_summary (foldl add_hours zero_summary segs)"
    using z w by (rule fold_add_hours_whole)
  then have "summarize segs = foldl add_hours zero_summary segs"
    unfolding summarize_def by (rule round_summary_whole)
  moreover have "four_total (foldl add_hours zero_summary segs) = four_total zero_summary + total_hours segs"
    using k by (rule fold_add_hours_known)
  moreover have "total_hours segs = 24" using chain_total [OF c] by simp
  moreover have "four_total zero_summary = 0" by (simp add: four_total_def zero_summary_def)
  ultimately show ?thesis by simp
qed

lemma DailySummaryTable_total:
  assumes "driving sm = of_int i / 100" "on_duty_not_driving sm = of_int j / 100"
  shows "\<bar>ms_off_duty (DailySummaryTable sm) + ms_driving (DailySummaryTable sm)
          + ms_on_duty_not_driving (DailySummaryTable sm) - 24\<bar> \<le> 0.01"
proof (cases "\<bar>off_duty sm + sleeper_birth sm + driving sm + on_duty_not_driving sm - 24\<bar> > 0.01")
  case False
  then show ?thesis by (simp add: DailySummaryTable_def Let_def)
next
  case True
  let ?rest = "24 - driving sm - on_duty_not_driving sm"
  have a: "off_duty sm + sleeper_birth sm
             + (24 - (off_duty sm + sleeper_birth sm + driving sm + on_duty_not_driving sm))
           = ?rest"
    by simp
  have h: "?rest = of_int (2400 - i - j) / 100" using assms by simp
  have "toFixed2 (of_int (2400 - i - j) / 100) = of_int (2400 - i - j) / 100"
    by (rule toFixed2_hundredth)
  then have t: "toFixed2 ?rest = ?rest" by (simp only: h)
  have "DailySummaryTable sm
          = \<lparr>ms_off_duty = toFixed2 ?rest, ms_driving = driving sm,
             ms_on_duty_not_driving = on_duty_not_driving sm\<rparr>"
    using True by (simp only: DailySummaryTable_def Let_def merged_summary.simps a if_True
        merged_summary.update_convs)
  then show ?thesis by (simp add: t)
qed

lemma summarize_hundredths:
  "\<exists>i j. driving (summarize segs) = of_int i / 100
         \<and> on_duty_not_driving (summarize segs) = of_int j / 100"
  using toFixed2_is_hundredth by (simp add: summarize_def round_summary_def)

subsection \<open>The first loop keeps every day ordered\<close>






lemma in_ensure_day: "kd \<in> set (ensure_day k dd) \<Longrightarrow> kd \<in> set dd \<or> kd = (k, new_day)"
  by (auto simp: ensure_day_def split: if_splits)

lemma in_push_segment:
  "kd \<in> set (push_segment k seg dd)
   \<Longrightarrow> kd \<in> set dd \<or> (\<exists>d. (k, d) \<in> set dd \<and> kd = (k, d\<lparr>segments := segments d @ [seg]\<rparr>))"
proof (induction dd)
  case Nil
  then show ?case by simp
next
  case (Cons x dd)
  obtain k' d where x: "x = (k', d)" by (cases x)
  show ?case
  proof (cases "k' = k")
    case True
    with Cons.prems x show ?thesis by auto
  next
    case False
    with Cons.prems x have "kd = (k', d) \<or> kd \<in> set (push_segment k seg dd)" by simp
    then show ?thesis using Cons.IH x by auto
  qed
qed








lemma chain_covers:
  "chain a xs b \<Longrightarrow> a \<le> x \<Longrightarrow> x < b \<Longrightarrow> \<exists>s\<in>set xs. startHour s \<le> x \<and> x < endHour s"
proof (induction xs arbitrary: a)
  case Nil
  then show ?case by simp
next
  case (Cons y ys)
  from Cons.prems(1) have s: "startHour y = a" and c: "chain (endHour y) ys b" by simp_all
  show ?case
  proof (cases "x < endHour y")
    case True
    with s Cons.prems(2) show ?thesis by simp
  next
    case False
    then have "endHour y \<le> x" by simp
    from Cons.IH [OF c this Cons.prems(3)] show ?thesis by auto
  qed
qed

subsection \<open>The hours recorded by the first loop\<close>











subsection \<open>Properties of the single segments of the first loop\<close>

lemma split_days_segments:
  assumes new: "\<And>x y. Q \<lparr>status = st, startHour = of_int x, endHour = of_int y\<rparr>"
  shows "\<forall>kd\<in>set dd. \<forall>s\<in>set (segments (snd kd)). Q s
         \<Longrightarrow> split_days z st (Some b) (Some a) dd = Inr dd'
         \<Longrightarrow> \<forall>kd\<in>set dd'. \<forall>s\<in>set (segments (snd kd)). Q s"
proof (induction "nat (b - a)" arbitrary: a dd rule: less_induct)
  case less
  show ?case
  proof (cases "a < b")
    case False
    with less.prems show ?thesis by (simp add: split_days_done)
  next
    case True
    let ?k = "day_number z a"
    let ?n = "next_start z ?k"
    let ?bnd = "min b ?n"
    let ?seg = "\<lparr>status = st, startHour = of_int (hour_in z ?k a),
                endHour = of_int (hour_in z ?k ?bnd)\<rparr>"
    let ?dd1 = "ensure_day ?k dd"
    let ?dd2 = "if hour_in z ?k a < hour_in z ?k ?bnd then push_segment ?k ?seg ?dd1 else ?dd1"
    have 1: "\<forall>kd\<in>set ?dd1. \<forall>s\<in>set (segments (snd kd)). Q s"
    proof
      fix kd assume "kd \<in> set ?dd1"
      from in_ensure_day [OF this] show "\<forall>s\<in>set (segments (snd kd)). Q s"
        using less.prems(1) by (auto simp: new_day_def)
    qed
    have vk: "valid_time (midnight z ?k)"
    proof (rule ccontr)
      assume "\<not> valid_time (midnight z ?k)"
      from split_days_error [OF True this] less.prems(2) show False by simp
    qed
    show ?thesis
    proof (cases "valid_time ?n")
      case False
      from split_days_last [OF True vk False] less.prems(2) have "dd' = ?dd1" by simp
      with 1 show ?thesis by simp
    next
      case vn: True
      have 2: "\<forall>kd\<in>set ?dd2. \<forall>s\<in>set (segments (snd kd)). Q s"
      proof
        fix kd assume kd: "kd \<in> set ?dd2"
        show "\<forall>s\<in>set (segments (snd kd)). Q s"
        proof (cases "hour_in z ?k a < hour_in z ?k ?bnd")
          case False
          with kd 1 show ?thesis by simp
        next
          case True
          with kd have "kd \<in> set (push_segment ?k ?seg ?dd1)" by simp
          from in_push_segment [OF this] show ?thesis
          proof
            assume "kd \<in> set ?dd1"
            with 1 show ?thesis by simp
          next
            assume "\<exists>d. (?k, d) \<in> set ?dd1 \<and> kd = (?k, d\<lparr>segments := segments d @ [?seg]\<rparr>)"
            then obtain d where d: "(?k, d) \<in> set ?dd1"
              and kd: "kd = (?k, d\<lparr>segments := segments d @ [?seg]\<rparr>)" by blast
            from 1 d have "\<forall>s\<in>set (segments d). Q s" by fastforce
            with new [of "hour_in z ?k a" "hour_in z ?k ?bnd"] show ?thesis
              unfolding kd by simp
          qed
        qed
      qed
      have gt: "a < ?n" by (rule after_day)
      have "nat (b - ?n) < nat (b - a)" using True gt by simp
      moreover note 2
      moreover have "split_days z st (Some b) (Some ?n) ?dd2 = Inr dd'"
        using less.prems(2) by (simp only: split_days_step [OF True vk vn])
      ultimately show ?thesis by (rule less.hyps)
    qed
  qed
qed

lemma forEach_stop_segments:
  "\<forall>a\<in>set stops. eldStatus_of (type a) \<in> S
   \<Longrightarrow> \<forall>kd\<in>set (snd s). \<forall>x\<in>set (segments (snd kd)). from_stops S x
   \<Longrightarrow> forEach_stop z s stops = Inr s'
   \<Longrightarrow> \<forall>kd\<in>set (snd s'). \<forall>x\<in>set (segments (snd kd)). from_stops S x"
proof (induction stops arbitrary: s)
  case Nil
  then show ?case by simp
next
  case (Cons a stops)
  from Cons.prems(1) have a: "eldStatus_of (type a) \<in> S"
    and r: "\<forall>a\<in>set stops. eldStatus_of (type a) \<in> S" by simp_all
  from Cons.prems(3) obtain s1 where p: "process_stop z s a = Inr s1"
    and f: "forEach_stop z s1 stops = Inr s'"
    by (auto split: sum.splits)
  have new: "\<And>x y. from_stops S \<lparr>status = eldStatus_of (type a), startHour = of_int x,
                                endHour = of_int y\<rparr>"
    using a by (simp add: from_stops_def whole_hours_def)
  have "\<forall>kd\<in>set (snd s1). \<forall>x\<in>set (segments (snd kd)). from_stops S x"
  proof (cases "isBefore (fst s) (addHours (fst s) (duration_hours a))")
    case False
    then have "snd s1 = snd s" using p by (auto simp: process_stop_def Let_def split_days_done)
    with Cons.prems(2) show ?thesis by simp
  next
    case True
    then obtain c e where c: "fst s = Some c"
      and e: "addHours (Some c) (duration_hours a) = Some e"
      by (auto simp: isBefore_def split: option.splits)
    from p obtain dd' where sd: "split_days z (eldStatus_of (type a)) (Some e) (Some c) (snd s) = Inr dd'"
      and s1: "s1 = (Some e, dd')"
      by (auto simp: process_stop_def Let_def c e split: sum.splits)
    from split_days_segments [of "from_stops S", OF new Cons.prems(2) sd] show ?thesis
      unfolding s1 by simp
  qed
  from Cons.IH [OF r this f] show ?case .
qed

lemma expand_stops_segments:
  assumes "\<forall>a\<in>set stops. eldStatus_of (type a) \<in> S"
    and "expand_stops z stops start = Inr (c, dd)" and "(k, d) \<in> set dd"
  shows "\<forall>x\<in>set (segments d). whole_hours x \<and> status x \<in> S"
proof -
  have "\<forall>kd\<in>set (snd (c, dd)). \<forall>x\<in>set (segments (snd kd)). from_stops S x"
    using assms(1) _ assms(2) [unfolded expand_stops_def]
    by (rule forEach_stop_segments) simp
  with assms(3) show ?thesis by (fastforce simp: from_stops_def)
qed

subsection \<open>A stop of duration zero\<close>

lemma is_date_new_Date: "is_date (new_Date v)"
proof (cases "new_Date v")
  case None
  then show ?thesis by (simp add: is_date_def)
next
  case (Some t)
  then have "valid_time t" unfolding new_Date_def by (rule TimeClip_valid)
  then show ?thesis by (simp add: is_date_def Some)
qed

lemma is_date_addHours: "is_date (addHours d h)"
  by (cases d) (simp_all add: addHours_def is_date_new_Date, simp add: is_date_def)

lemma addHours_zero_date: "is_date d \<Longrightarrow> addHours d 0 = d"
  by (cases d) (simp_all add: addHours_zero is_date_def, simp add: addHours_def)

lemma process_stop_zero:
  assumes "duration_hours a = 0" "is_date (fst s)"
  shows "process_stop z s a = Inr s"
proof -
  have "addHours (fst s) 0 = fst s" using assms(2) by (rule addHours_zero_date)
  moreover have "\<not> isBefore (fst s) (fst s)" by (cases "fst s") simp_all
  ultimately show ?thesis
    by (simp add: process_stop_def Let_def assms(1) split_days_done)
qed

lemma process_stop_date: "process_stop z s a = Inr s' \<Longrightarrow> is_date (fst s')"
  by (auto simp: process_stop_def Let_def is_date_addHours split: sum.splits)

lemma forEach_stop_date:
  "is_date (fst s) \<Longrightarrow> forEach_stop z s stops = Inr s' \<Longrightarrow> is_date (fst s')"
proof (induction stops arbitrary: s)
  case Nil
  then show ?case by simp
next
  case (Cons a stops)
  from Cons.prems(2) obtain s1 where p: "process_stop z s a = Inr s1"
    and f: "forEach_stop z s1 stops = Inr s'"
    by (auto split: sum.splits)
  from p have "is_date (fst s1)" by (rule process_stop_date)
  from this f show ?case by (rule Cons.IH)
qed

lemma forEach_stop_append:
  "forEach_stop z s (xs @ ys)
     = (case forEach_stop z s xs of Inl err \<Rightarrow> Inl err | Inr s' \<Rightarrow> forEach_stop z s' ys)"
  by (induction xs arbitrary: s) (simp_all split: sum.splits)

lemma expand_stops_zero:
  assumes "duration_hours a = 0" "is_date start"
  shows "expand_stops z (xs @ a # ys) start = expand_stops z (xs @ ys) start"
proof (cases "forEach_stop z (start, []) xs")
  case (Inl err)
  then show ?thesis by (simp add: expand_stops_def forEach_stop_append)
next
  case (Inr s')
  have "is_date (fst (start, []))" using assms(2) by simp
  from this Inr have "is_date (fst s')" by (rule forEach_stop_date)
  with assms(1) have "process_stop z s' a = Inr s'" by (rule process_stop_zero)
  then show ?thesis by (simp add: expand_stops_def forEach_stop_append Inr)
qed

lemma chain_ends:
  "chain a xs b \<Longrightarrow> xs \<noteq> [] \<Longrightarrow> startHour (hd xs) = a \<and> endHour (last xs) = b"
proof (induction xs arbitrary: a)
  case Nil
  then show ?case by simp
next
  case (Cons y ys)
  from Cons.prems(1) have s: "startHour y = a" and c: "chain (endHour y) ys b" by simp_all
  show ?case
  proof (cases "ys = []")
    case True
    with s c show ?thesis by simp
  next
    case False
    from Cons.IH [OF c False] s False show ?thesis by simp
  qed
qed

lemma chain_day:
  assumes "chain 0 xs 24"
  shows "xs \<noteq> [] \<and> startHour (hd xs) = 0 \<and> endHour (last xs) = 24
       \<and> successively (\<lambda>x y. endHour x = startHour y) xs
       \<and> {0 ..< 24} \<subseteq> (\<Union>x\<in>set xs. {startHour x ..< endHour x})"
proof -
  have ne: "xs \<noteq> []" using assms by (cases xs) simp_all
  have "{0 ..< 24} \<subseteq> (\<Union>x\<in>set xs. {startHour x ..< endHour x})"
  proof
    fix x :: real assume "x \<in> {0 ..< 24}"
    then have "0 \<le> x" "x < 24" by simp_all
    from chain_covers [OF assms this] show "x \<in> (\<Union>x\<in>set xs. {startHour x ..< endHour x})"
      by auto
  qed
  with chain_ends [OF assms ne] chain_successively [OF assms] ne show ?thesis by simp
qed

subsection \<open>The four values of a summary\<close>

lemma four_values_of_ordinary_labels:
  assumes ord: "\<forall>a\<in>set plannedStops. type a \<notin> set Object_prototype_keys"
    and r: "processTripData z plannedStops startDate = Inr days" and m: "(k, d) \<in> set days"
  shows "four_total (summary d) = 24"
proof -
  from in_processTripData [OF r m] obtain c dd d0
    where e: "expand_stops z plannedStops startDate = Inr (c, dd)"
      and d0: "(k, d0) \<in> set dd" and d: "d = post_process d0" by blast
  have s: "summary d = summarize (segments d)" unfolding d by (rule post_process_summary)
  have "\<forall>a\<in>set plannedStops. eldStatus_of (type a) \<in> Collect known_status"
  proof
    fix a assume "a \<in> set plannedStops"
    with ord have "type a \<notin> set Object_prototype_keys" by (rule bspec)
    then have "known_status (eldStatus_of (type a))" by (rule eldStatus_of_known)
    then show "eldStatus_of (type a) \<in> Collect known_status" by (rule CollectI)
  qed
  from expand_stops_segments [OF this e d0]
  have both: "\<forall>x\<in>set (segments d0). whole_hours x \<and> status x \<in> Collect known_status" .
  have w0: "\<forall>x\<in>set (segments d0). whole_hours x"
  proof
    fix x assume "x \<in> set (segments d0)"
    with both show "whole_hours x" by blast
  qed
  have c: "chain 0 (segments d) 24" unfolding d by (rule post_process_chain)
  have w: "\<forall>x\<in>set (segments d). whole_hours x" unfolding d using w0 by (rule post_process_whole)
  have off: "known_status (Text ''Off Duty'')" by (simp add: known_status_def)
  have kn: "\<forall>x\<in>set (segments d). known_status (status x)"
  proof
    fix x assume "x \<in> set (segments d)"
    then have "status x \<in> status ` set (segments (post_process d0))" unfolding d by (rule imageI)
    with post_process_status [of d0]
    have "status x \<in> insert (Text ''Off Duty'') (status ` set (segments d0))" by (rule subsetD)
    then show "known_status (status x)"
    proof (rule insertE)
      assume "status x = Text ''Off Duty''"
      with off show ?thesis by (simp only:)
    next
      assume "status x \<in> status ` set (segments d0)"
      then obtain y where y: "y \<in> set (segments d0)" and e: "status x = status y" by (rule imageE)
      from both y have "status y \<in> Collect known_status" by blast
      then show ?thesis unfolding e by (rule CollectD)
    qed
  qed
  from summarize_known [OF c w kn] show ?thesis by (simp add: s)
qed

subsection \<open>Evaluation\<close>

lemmas first_loop_eval = processTripData_def expand_stops_def process_stop_def addHours_numeral
  eldStatus_of_def get_ELD_STATUS_MAP_def ELD_STATUS_MAP_def Object_prototype_keys_def
  split_days_step split_days_done hour_in_def ensure_day_def new_day_def

lemmas second_loop_eval = post_process_def fill_gaps_def fill_step_def off_duty_segment_def
  mergeable_def summarize_def add_hours_def zero_summary_def round_summary_def toFixed2_def

lemmas fixed_zone_eval = day_number_fixed_zone midnight_fixed_zone next_start_fixed_zone


lemma plain_day_fixed_zone: "plain_day (fixed_zone tz) tz k"
  by (simp add: plain_day_def fixed_zone_eval)

lemma scenario_A_eval:
  assumes tz: "\<bar>tz\<bar> \<le> 86400000" and p7: "plain_day z tz 20307" and p8: "plain_day z tz 20308"
  shows "processTripData z scenario_A_stops (scenario_A_start tz)
           = Inr [(20307, scenario_A_day1), (20308, scenario_A_day2)]"
proof -
  from p7 have m7: "midnight z 20307 = 1754524800000 - tz"
    and n7: "next_start z 20307 = 1754611200000 - tz" by (simp_all add: plain_day_def)
  from p8 have m8: "midnight z 20308 = 1754611200000 - tz"
    and n8: "next_start z 20308 = 1754697600000 - tz" by (simp_all add: plain_day_def)
  have d7: "day_number z t = 20307" if "1754524800000 - tz \<le> t" "t < 1754611200000 - tz" for t
  proof (rule day_number_unique)
    show "midnight z 20307 \<le> t" using that(1) by (simp only: m7)
    show "t < midnight z (20307 + 1)" using that(2) m8 by simp
  qed
  have d8: "day_number z (1754611200000 - tz) = 20308"
    using day_number_midnight [of z 20308] by (simp only: m8)
  show ?thesis
    unfolding scenario_A_stops_def scenario_A_start_def scenario_A_day1_def scenario_A_day2_def
    using tz
    apply (simp add: first_loop_eval m7 n7 m8 n8 d7 d8 valid_time_def)
    apply (simp add: second_loop_eval)
    done
qed

lemma scenario_A_fixed_zone:
  "\<bar>tz\<bar> \<le> 86400000
   \<Longrightarrow> processTripData (fixed_zone tz) scenario_A_stops (scenario_A_start tz)
         = Inr [(20307, scenario_A_day1), (20308, scenario_A_day2)]"
  by (rule scenario_A_eval) (simp_all add: plain_day_fixed_zone)

lemma scenario_A_utc:
  "processTripData (fixed_zone 0) scenario_A_stops (scenario_A_start 0)
     = Inr [(20307, scenario_A_day1), (20308, scenario_A_day2)]"
  by (rule scenario_A_fixed_zone) simp




lemma constructor_eval:
  "processTripData (fixed_zone 0) [\<lparr>type = ''constructor'', duration_hours = 2\<rparr>]
       (Some 1754553600000)
     = Inr [(20307,
         \<lparr>segments = [\<lparr>status = Text ''Off Duty'', startHour = 0, endHour = 8\<rparr>,
                      \<lparr>status = Inherited ''constructor'', startHour = 8, endHour = 10\<rparr>,
                      \<lparr>status = Text ''Off Duty'', startHour = 10, endHour = 24\<rparr>],
          summary = \<lparr>off_duty = 22, sleeper_birth = 0, driving = 0, on_duty_not_driving = 0,
                     stray = [Inherited ''constructor'']\<rparr>\<rparr>)]"
  apply (simp add: first_loop_eval fixed_zone_eval valid_time_def)
  apply (simp add: second_loop_eval)
  done


lemma fractional_eval:
  "expand_stops (fixed_zone 0) [\<lparr>type = ''Driving'', duration_hours = 3 / 2\<rparr>]
       (Some 1754553600000)
     = Inr (Some 1754559000000,
            [(20307, \<lparr>segments = [\<lparr>status = Text ''Driving'', startHour = 8, endHour = 9\<rparr>],
                      summary = zero_summary\<rparr>)])"
proof -
  have a: "addHours (Some 1754553600000) (3 / 2) = Some 1754559000000"
    by (simp add: addHours_def new_Date_def TimeClip_def)
  show ?thesis
    by (simp add: expand_stops_def process_stop_def a eldStatus_of_def get_ELD_STATUS_MAP_def
        ELD_STATUS_MAP_def Object_prototype_keys_def split_days_step split_days_done hour_in_def
        ensure_day_def new_day_def fixed_zone_eval valid_time_def)
qed

section \<open>The claims\<close>





text \<open>
  C3 fails on the code. \<open>differenceInHours\<close> truncates to whole hours: a single Driving
  activity of 1.5 hours starting 2025-08-07T08:00 (zone of offset 0) ends at 09:30, that is
  9.5 hours after the start of the day, and the segment recorded for it is Driving from 8
  to 9.
\<close>

theorem fractional_duration_truncated:
  "expand_stops (fixed_zone 0) [\<lparr>type = ''Driving'', duration_hours = 3 / 2\<rparr>]
       (Some 1754553600000)
     = Inr (Some (1754553600000 + 5400000),
            [(20307, \<lparr>segments = [\<lparr>status = Text ''Driving'', startHour = 8, endHour = 9\<rparr>],
                      summary = zero_summary\<rparr>)])
   \<and> addHours (Some 1754553600000) (3 / 2) = Some (1754553600000 + 5400000)
   \<and> startOfDay (fixed_zone 0) (Some 1754553600000) = Some 1754524800000
   \<and> real_of_int (1754553600000 + 5400000 - 1754524800000) / 3600000 = 19 / 2"
  by (simp add: fractional_eval addHours_def new_Date_def TimeClip_def startOfDay_def
      fixed_zone_eval)

text \<open>
  C4 (Scenario A). The trip starts on 2025-08-07 at 08:00 local time, in a zone where local
  time is \<open>tz\<close> milliseconds ahead of UTC (at most a day) and 2025-08-07 and 2025-08-08, the
  days 20307 and 20308, are plain days at that offset; every zone of fixed offset is such a
  zone. With the activities Driving for 11 hours and Daily Rest for 10 hours,
  \<open>processTripData\<close> returns exactly two days, in this order: day 20307 with the segments Off
  Duty 0 to 8, Driving 8 to 19, Off Duty 19 to 24 and the summary Off Duty 13, Driving 11,
  Sleeper Birth 0, On Duty (Not Driving) 0; and day 20308 with the single segment Off Duty
  0 to 24 and the summary Off Duty 24, the others 0.
\<close>

theorem scenario_A:
  assumes "\<bar>tz\<bar> \<le> 86400000" and "plain_day z tz 20307" and "plain_day z tz 20308"
  shows "processTripData z
     [\<lparr>type = ''Driving'', duration_hours = 11\<rparr>, \<lparr>type = ''Daily Rest'', duration_hours = 10\<rparr>]
     (Some (1754553600000 - tz))
   = Inr [(20307,
       \<lparr>segments = [\<lparr>status = Text ''Off Duty'', startHour = 0, endHour = 8\<rparr>,
                    \<lparr>status = Text ''Driving'', startHour = 8, endHour = 19\<rparr>,
                    \<lparr>status = Text ''Off Duty'', startHour = 19, endHour = 24\<rparr>],
        summary = \<lparr>off_duty = 13, sleeper_birth = 0, driving = 11, on_duty_not_driving = 0,
                   stray = []\<rparr>\<rparr>),
      (20308,
       \<lparr>segments = [\<lparr>status = Text ''Off Duty'', startHour = 0, endHour = 24\<rparr>],
        summary = \<lparr>off_duty = 24, sleeper_birth = 0, driving = 0, on_duty_not_driving = 0,
                   stray = []\<rparr>\<rparr>)]
   \<and> civil_of_day 20307 = (2025, 8, 7) \<and> civil_of_day 20308 = (2025, 8, 8)
   \<and> day_number z (1754553600000 - tz) = 20307 \<and> hour_in z 20307 (1754553600000 - tz) = 8"
proof (intro conjI)
  from assms(2) have m7: "midnight z 20307 = 1754524800000 - tz" by (simp add: plain_day_def)
  from assms(3) have m8: "midnight z 20308 = 1754611200000 - tz" by (simp add: plain_day_def)
  show "civil_of_day 20307 = (2025, 8, 7)" by code_simp
  show "civil_of_day 20308 = (2025, 8, 8)" by code_simp
  show "day_number z (1754553600000 - tz) = 20307"
  proof (rule day_number_unique)
    show "midnight z 20307 \<le> 1754553600000 - tz" by (simp add: m7)
    show "1754553600000 - tz < midnight z (20307 + 1)" by (simp add: m8)
  qed
  show "hour_in z 20307 (1754553600000 - tz) = 8" by (simp add: hour_in_def m7)
qed (rule scenario_A_eval [OF assms, unfolded scenario_A_stops_def scenario_A_start_def
      scenario_A_day1_def scenario_A_day2_def])

text \<open>
  The theorem in the zone of offset 0.
\<close>

theorem scenario_A_witness:
  "\<bar>0::int\<bar> \<le> 86400000 \<and> plain_day (fixed_zone 0) 0 20307 \<and> plain_day (fixed_zone 0) 0 20308
   \<and> processTripData (fixed_zone 0)
     [\<lparr>type = ''Driving'', duration_hours = 11\<rparr>, \<lparr>type = ''Daily Rest'', duration_hours = 10\<rparr>]
     (Some 1754553600000)
   = Inr [(20307,
       \<lparr>segments = [\<lparr>status = Text ''Off Duty'', startHour = 0, endHour = 8\<rparr>,
                    \<lparr>status = Text ''Driving'', startHour = 8, endHour = 19\<rparr>,
                    \<lparr>status = Text ''Off Duty'', startHour = 19, endHour = 24\<rparr>],
        summary = \<lparr>off_duty = 13, sleeper_birth = 0, driving = 11, on_duty_not_driving = 0,
                   stray = []\<rparr>\<rparr>),
      (20308,
       \<lparr>segments = [\<lparr>status = Text ''Off Duty'', startHour = 0, endHour = 24\<rparr>],
        summary = \<lparr>off_duty = 24, sleeper_birth = 0, driving = 0, on_duty_not_driving = 0,
                   stray = []\<rparr>\<rparr>)]"
proof -
  have 1: "\<bar>0::int\<bar> \<le> 86400000" by simp
  have 2: "plain_day (fixed_zone 0) 0 20307" by (rule plain_day_fixed_zone)
  have 3: "plain_day (fixed_zone 0) 0 20308" by (rule plain_day_fixed_zone)
  from scenario_A [OF 1 2 3, THEN conjunct1] 1 2 3 show ?thesis by simp
qed




text \<open>
  C6, as the code has it. In every zone and for every start date, \<open>processTripData\<close> called
  with an empty activity list returns no day at all: days are only created inside the loop
  over the activities.
\<close>

theorem empty_list_no_days: "processTripData z [] startDate = Inr []"
  by (simp add: processTripData_def expand_stops_def)

text \<open>
  C6 as stated fails: for the start 2025-08-07T08:00 (zone of offset 0) and no activity,
  the result is empty, not the single day made of the one segment Off Duty 0 to 24.
\<close>

theorem empty_list_single_day_counterexample:
  "processTripData (fixed_zone 0) [] (Some 1754553600000) = Inr []
   \<and> processTripData (fixed_zone 0) [] (Some 1754553600000)
       \<noteq> Inr [(20307, \<lparr>segments = [\<lparr>status = Text ''Off Duty'', startHour = 0, endHour = 24\<rparr>],
                        summary = \<lparr>off_duty = 24, sleeper_birth = 0, driving = 0,
                                   on_duty_not_driving = 0, stray = []\<rparr>\<rparr>)]
   \<and> day_number (fixed_zone 0) 1754553600000 = 20307"
  by (simp add: processTripData_def expand_stops_def fixed_zone_eval)

text \<open>
  C7 fails on the code. The label \<open>constructor\<close> is not in the lookup table, yet
  \<open>ELD_STATUS_MAP['constructor']\<close> finds the member inherited from \<open>Object.prototype\<close>,
  which is truthy, so the default is not taken: the status is not Off Duty, and the
  segment stays apart from the Off Duty segments around it.
\<close>

theorem inherited_label_not_off_duty:
  "map_of ELD_STATUS_MAP ''constructor'' = None
   \<and> eldStatus_of ''constructor'' = Inherited ''constructor''
   \<and> eldStatus_of ''constructor'' \<noteq> Text ''Off Duty''
   \<and> map_sum id (map (segments \<circ> snd))
        (processTripData (fixed_zone 0) [\<lparr>type = ''constructor'', duration_hours = 2\<rparr>]
           (Some 1754553600000))
     = Inr [[\<lparr>status = Text ''Off Duty'', startHour = 0, endHour = 8\<rparr>,
             \<lparr>status = Inherited ''constructor'', startHour = 8, endHour = 10\<rparr>,
             \<lparr>status = Text ''Off Duty'', startHour = 10, endHour = 24\<rparr>]]"
  by (simp add: constructor_eval eldStatus_of_def get_ELD_STATUS_MAP_def ELD_STATUS_MAP_def
      Object_prototype_keys_def)

text \<open>
  C8. A stop of duration exactly 0 leaves the state of the first loop as it is: no segment
  and no day is added and the running clock does not move, so the result is the one of the
  list without that stop. Every day of the result is covered from 0 to 24 without gaps:
  its segments start at 0, end at 24, each starts where the one before ends, and every
  instant from 0 up to 24 lies in one of them. Here the start and the clock are dates.
\<close>

theorem zero_duration_stop:
  assumes "duration_hours a = 0" and "is_date startDate" and "is_date (fst s)"
  shows "process_stop z s a = Inr s
       \<and> processTripData z (xs @ a # ys) startDate = processTripData z (xs @ ys) startDate
       \<and> (\<forall>days. processTripData z (xs @ a # ys) startDate = Inr days \<longrightarrow>
            (\<forall>kd\<in>set days.
               segments (snd kd) \<noteq> []
               \<and> startHour (hd (segments (snd kd))) = 0
               \<and> endHour (last (segments (snd kd))) = 24
               \<and> successively (\<lambda>x y. endHour x = startHour y) (segments (snd kd))
               \<and> {0 ..< 24} \<subseteq> (\<Union>x\<in>set (segments (snd kd)). {startHour x ..< endHour x})))"
proof (intro conjI allI impI ballI)
  show "process_stop z s a = Inr s" using assms(1) assms(3) by (rule process_stop_zero)
  show "processTripData z (xs @ a # ys) startDate = processTripData z (xs @ ys) startDate"
    using expand_stops_zero [OF assms(1) assms(2)] by (simp add: processTripData_def)
next
  fix days kd
  assume r: "processTripData z (xs @ a # ys) startDate = Inr days" and kd: "kd \<in> set days"
  from kd have "(fst kd, snd kd) \<in> set days" by simp
  from in_processTripData [OF r this] obtain d0 where d: "snd kd = post_process d0" by blast
  have "chain 0 (segments (snd kd)) 24" unfolding d by (rule post_process_chain)
  from chain_day [OF this]
  show "segments (snd kd) \<noteq> []" "startHour (hd (segments (snd kd))) = 0"
    "endHour (last (segments (snd kd))) = 24"
    "successively (\<lambda>x y. endHour x = startHour y) (segments (snd kd))"
    "{0 ..< 24} \<subseteq> (\<Union>x\<in>set (segments (snd kd)). {startHour x ..< endHour x})"
    by simp_all
qed

text \<open>
  The theorem at Scenario B in the zone of offset 0: a stop of duration 0 between the two
  stops of Scenario A.
\<close>

theorem zero_duration_stop_witness:
  "duration_hours \<lparr>type = ''Pickup Stop'', duration_hours = 0\<rparr> = 0
   \<and> is_date (scenario_A_start 0)
   \<and> is_date (fst (scenario_A_start 0, []::daily_data))
   \<and> process_stop (fixed_zone 0) (scenario_A_start 0, [])
        \<lparr>type = ''Pickup Stop'', duration_hours = 0\<rparr> = Inr (scenario_A_start 0, [])
   \<and> processTripData (fixed_zone 0)
        ([\<lparr>type = ''Driving'', duration_hours = 11\<rparr>] @ \<lparr>type = ''Pickup Stop'', duration_hours = 0\<rparr>
           # [\<lparr>type = ''Daily Rest'', duration_hours = 10\<rparr>]) (scenario_A_start 0)
      = Inr [(20307, scenario_A_day1), (20308, scenario_A_day2)]"
proof -
  let ?a = "\<lparr>type = ''Pickup Stop'', duration_hours = 0\<rparr>"
  let ?xs = "[\<lparr>type = ''Driving'', duration_hours = 11\<rparr>]"
  let ?ys = "[\<lparr>type = ''Daily Rest'', duration_hours = 10\<rparr>]"
  have 1: "duration_hours ?a = 0" by simp
  have 2: "is_date (scenario_A_start 0)"
    by (simp add: is_date_def scenario_A_start_def valid_time_def)
  have 3: "is_date (fst (scenario_A_start 0, []::daily_data))" using 2 by simp
  note t = zero_duration_stop [OF 1 2 3, of "fixed_zone 0" ?xs ?ys]
  have "?xs @ ?ys = scenario_A_stops" by (simp add: scenario_A_stops_def)
  then have "processTripData (fixed_zone 0) (?xs @ ?ys) (scenario_A_start 0)
          = Inr [(20307, scenario_A_day1), (20308, scenario_A_day2)]"
    using scenario_A_utc by (simp only:)
  with t [THEN conjunct2, THEN conjunct1]
  have "processTripData (fixed_zone 0) (?xs @ ?a # ?ys) (scenario_A_start 0)
          = Inr [(20307, scenario_A_day1), (20308, scenario_A_day2)]"
    by (rule trans)
  with 1 2 3 t [THEN conjunct1] show ?thesis by (intro conjI)
qed

text \<open>
  C9. The merging step is idempotent: merging an already merged sequence returns it
  unchanged, for every sequence of segments.
\<close>

theorem merge_idempotent: "merge_segments (merge_segments segs) = merge_segments segs"
proof (cases segs)
  case Nil
  then show ?thesis by simp
next
  case (Cons c rest)
  obtain c' tl where h: "merge_run c rest = c' # tl" using merge_run_hd by blast
  have "successively (\<lambda>x y. \<not> mergeable x y) (c' # tl)"
    using merge_run_unmergeable [of c rest] h by simp
  then have "merge_run c' tl = c' # tl" by (rule merge_run_fixed)
  then show ?thesis using Cons h by (simp add: merge_loop_run)
qed

text \<open>
  C10. In every day's merged segment list returned by \<open>processTripData\<close>, each segment
  starts exactly where the one before ends, and any two consecutive segments carry
  different duty statuses. This holds for every input on which the function returns.
\<close>

theorem consecutive_statuses_differ:
  assumes "processTripData z plannedStops startDate = Inr days" and "(k, d) \<in> set days"
  shows "\<forall>i. Suc i < length (segments d)
           \<longrightarrow> endHour (segments d ! i) = startHour (segments d ! Suc i)
               \<and> status (segments d ! i) \<noteq> status (segments d ! Suc i)"
proof -
  from in_processTripData [OF assms] obtain d0 where d: "d = post_process d0" by blast
  have "successively (\<lambda>x y. endHour x = startHour y) (segments d)"
    unfolding d using post_process_chain by (rule chain_successively)
  moreover have "successively (\<lambda>x y. status x \<noteq> status y) (segments d)"
    unfolding d by (rule post_process_alternate)
  ultimately show ?thesis by (simp add: successively_conv_nth)
qed

text \<open>
  The theorem at Scenario A in the zone of offset 0, first day.
\<close>

theorem consecutive_statuses_differ_witness:
  "processTripData (fixed_zone 0) scenario_A_stops (scenario_A_start 0)
     = Inr [(20307, scenario_A_day1), (20308, scenario_A_day2)]
   \<and> (20307, scenario_A_day1) \<in> set [(20307, scenario_A_day1), (20308, scenario_A_day2)]
   \<and> Suc 0 < length (segments scenario_A_day1)
   \<and> endHour (segments scenario_A_day1 ! 0) = startHour (segments scenario_A_day1 ! Suc 0)
   \<and> status (segments scenario_A_day1 ! 0) \<noteq> status (segments scenario_A_day1 ! Suc 0)"
proof -
  have m: "(20307, scenario_A_day1) \<in> set [(20307, scenario_A_day1), (20308, scenario_A_day2)]"
    by simp
  have l: "Suc 0 < length (segments scenario_A_day1)" by (simp add: scenario_A_day1_def)
  from consecutive_statuses_differ [OF scenario_A_utc m] l m scenario_A_utc
  show ?thesis by blast
qed

end
